theory Spec2Isabelle
  imports Main
begin

section \<open>Data model\<close>

text \<open>
  A coordinate is a Python tuple \<open>(row, col)\<close> of unbounded integers; a station list is a
  Python list of such tuples, in insertion order and with duplicates allowed.
\<close>

type_synonym coord = "int \<times> int"

text \<open>
  The only exceptions the modelled functions can raise come from the array and the
  spatial-index constructors, both of which raise \<open>ValueError\<close>.
\<close>

datatype error = ValueError

text \<open>
  A distance is either an integer or \<open>float('inf')\<close>, the start value of the brute-force
  scan. Python compares an int with a float exactly, so \<open>min\<close> and \<open>max\<close> are modelled
  on this type without rounding.
\<close>

datatype num = Fin int | PInf

fun num_less :: "num \<Rightarrow> num \<Rightarrow> bool" where
  "num_less (Fin a) (Fin b) = (a < b)"
| "num_less (Fin a) PInf = True"
| "num_less PInf b = False"

text \<open>Python's \<open>min(a, b)\<close> keeps \<open>a\<close> unless \<open>b < a\<close>; \<open>max(a, b)\<close> keeps \<open>a\<close> unless \<open>b > a\<close>.\<close>

definition py_min :: "num \<Rightarrow> num \<Rightarrow> num" where
  "py_min a b = (if num_less b a then b else a)"

definition py_max :: "num \<Rightarrow> num \<Rightarrow> num" where
  "py_max a b = (if num_less a b then b else a)"

section \<open>Brute-force strategy\<close>

text \<open>
  \<^verbatim>\<open>
  distance = float('inf')
  for py, px in police_stations:
      distance = min(distance, max(abs(i - py), abs(j - px)))
  return distance
  \<close>
\<close>

definition get_nearest_distance_to_police_stations_brutal_force ::
    "int \<Rightarrow> int \<Rightarrow> coord list \<Rightarrow> num" where
  "get_nearest_distance_to_police_stations_brutal_force i j police_stations =
     fold (\<lambda>(py, px) distance. py_min distance (Fin (max \<bar>i - py\<bar> \<bar>j - px\<bar>)))
          police_stations PInf"

section \<open>Multi-source flood fill\<close>

text \<open>
  The two arrays of shape \<open>(rows, cols)\<close> are functions on index pairs; every write of the
  source is guarded by \<open>0 <= y < rows and 0 <= x < cols\<close>, so no index outside the shape
  (and no negative, wrapping index) is ever used. The queue is a Python list of triples
  \<open>(y, x, dist)\<close>, appended at the back and popped at the front. The distance array holds
  64-bit integers; the values written never exceed the larger grid dimension, so they are
  modelled as unbounded integers.
\<close>

type_synonym bfs_state = "(coord \<Rightarrow> int) \<times> (coord \<Rightarrow> bool) \<times> (int \<times> int \<times> int) list"

text \<open>\<open>np.full((rows, cols), 0)\<close>, \<open>np.zeros((rows, cols), dtype=bool)\<close> and \<open>[]\<close>.\<close>

definition bfs_init :: bfs_state where
  "bfs_init = ((\<lambda>c. 0), (\<lambda>c. False), [])"

text \<open>One iteration of the seeding loop over \<open>police_stations\<close>.\<close>

definition seed_station :: "int \<Rightarrow> int \<Rightarrow> coord \<Rightarrow> bfs_state \<Rightarrow> bfs_state" where
  "seed_station rows cols s st =
     (case s of (py, px) \<Rightarrow> case st of (distance_map, visited, queue) \<Rightarrow>
        if 0 \<le> py \<and> py < rows \<and> 0 \<le> px \<and> px < cols
        then (distance_map((py, px) := 0), visited((py, px) := True), queue @ [(py, px, 0)])
        else st)"

definition seed :: "int \<Rightarrow> int \<Rightarrow> coord list \<Rightarrow> bfs_state" where
  "seed rows cols police_stations = fold (seed_station rows cols) police_stations bfs_init"

definition directions :: "(int \<times> int) list" where
  "directions = [(-1, 0), (1, 0), (0, -1), (0, 1), (-1, -1), (-1, 1), (1, -1), (1, 1)]"

text \<open>One iteration of the loop over \<open>directions\<close>, for the popped item \<open>(y, x, dist)\<close>.\<close>

definition visit_dir ::
    "int \<Rightarrow> int \<Rightarrow> int \<Rightarrow> int \<Rightarrow> int \<Rightarrow> int \<times> int \<Rightarrow> bfs_state \<Rightarrow> bfs_state" where
  "visit_dir rows cols y x dist d st =
     (case d of (dy, dx) \<Rightarrow> case st of (distance_map, visited, queue) \<Rightarrow>
        let ny = y + dy; nx = x + dx in
        if 0 \<le> ny \<and> ny < rows \<and> 0 \<le> nx \<and> nx < cols \<and> \<not> visited (ny, nx)
        then (distance_map((ny, nx) := dist + 1), visited((ny, nx) := True),
              queue @ [(ny, nx, dist + 1)])
        else st)"

definition expand :: "int \<Rightarrow> int \<Rightarrow> int \<times> int \<times> int \<Rightarrow> bfs_state \<Rightarrow> bfs_state" where
  "expand rows cols item st =
     (case item of (y, x, dist) \<Rightarrow> fold (visit_dir rows cols y x dist) directions st)"

text \<open>The cells of the grid that are not yet marked; the loop's termination measure.\<close>

definition unvisited :: "int \<Rightarrow> int \<Rightarrow> (coord \<Rightarrow> bool) \<Rightarrow> coord set" where
  "unvisited rows cols visited =
     {c \<in> {0..<rows} \<times> {0..<cols}. \<not> visited c}"

definition bfs_measure :: "int \<Rightarrow> int \<Rightarrow> bfs_state \<Rightarrow> nat" where
  "bfs_measure rows cols st =
     (case st of (distance_map, visited, queue) \<Rightarrow>
        length queue + 2 * card (unvisited rows cols visited))"

lemma finite_unvisited: "finite (unvisited rows cols visited)"
  by (simp add: unvisited_def)

lemma unvisited_mark:
  assumes "0 \<le> ny" "ny < rows" "0 \<le> nx" "nx < cols" "\<not> visited (ny, nx)"
  shows "unvisited rows cols (visited((ny, nx) := True)) = unvisited rows cols visited - {(ny, nx)}"
    and "(ny, nx) \<in> unvisited rows cols visited"
  using assms by (auto simp: unvisited_def)

lemma bfs_measure_visit_dir:
  "bfs_measure rows cols (visit_dir rows cols y x dist d st) \<le> bfs_measure rows cols st"
proof -
  obtain dy dx where d: "d = (dy, dx)" by (cases d)
  obtain dm vis q where st: "st = (dm, vis, q)" by (cases st)
  show ?thesis
  proof (cases "0 \<le> y + dy \<and> y + dy < rows \<and> 0 \<le> x + dx \<and> x + dx < cols \<and> \<not> vis (y + dy, x + dx)")
    case True
    then have m: "(y + dy, x + dx) \<in> unvisited rows cols vis"
      and u: "unvisited rows cols (vis((y + dy, x + dx) := True))
              = unvisited rows cols vis - {(y + dy, x + dx)}"
      using unvisited_mark by auto
    from m have "card (unvisited rows cols vis) > 0"
      using finite_unvisited card_gt_0_iff by blast
    with m u True show ?thesis
      by (simp add: visit_dir_def d st bfs_measure_def Let_def finite_unvisited)
  next
    case False
    then have "visit_dir rows cols y x dist d st = st"
      by (auto simp add: visit_dir_def d st Let_def)
    then show ?thesis by simp
  qed
qed

lemma bfs_measure_fold:
  "bfs_measure rows cols (fold (visit_dir rows cols y x dist) ds st) \<le> bfs_measure rows cols st"
proof (induction ds arbitrary: st)
  case Nil
  then show ?case by simp
next
  case (Cons d ds)
  have "bfs_measure rows cols (fold (visit_dir rows cols y x dist) ds (visit_dir rows cols y x dist d st))
        \<le> bfs_measure rows cols (visit_dir rows cols y x dist d st)"
    by (rule Cons.IH)
  also have "\<dots> \<le> bfs_measure rows cols st" by (rule bfs_measure_visit_dir)
  finally show ?case by simp
qed

lemma bfs_measure_expand:
  "bfs_measure rows cols (expand rows cols item st) \<le> bfs_measure rows cols st"
  by (cases item) (simp add: expand_def bfs_measure_fold)

text \<open>
  \<^verbatim>\<open>
  while queue:
      y, x, dist = queue.pop(0)
      for dy, dx in directions: ...
  \<close>
\<close>

function bfs_loop :: "int \<Rightarrow> int \<Rightarrow> bfs_state \<Rightarrow> bfs_state" where
  "bfs_loop rows cols (distance_map, visited, []) = (distance_map, visited, [])"
| "bfs_loop rows cols (distance_map, visited, item # queue) =
     bfs_loop rows cols (expand rows cols item (distance_map, visited, queue))"
  by pat_completeness auto
termination
proof (relation "measure (\<lambda>(rows, cols, st). bfs_measure rows cols st)")
  show "wf (measure (\<lambda>(rows, cols, st). bfs_measure rows cols st))" by simp
next
  fix rows cols :: int and distance_map visited item and queue :: "(int \<times> int \<times> int) list"
  have "bfs_measure rows cols (expand rows cols item (distance_map, visited, queue))
        \<le> bfs_measure rows cols (distance_map, visited, queue)"
    by (rule bfs_measure_expand)
  also have "\<dots> < bfs_measure rows cols (distance_map, visited, item # queue)"
    by (simp add: bfs_measure_def)
  finally show "((rows, cols, expand rows cols item (distance_map, visited, queue)),
                 (rows, cols, distance_map, visited, item # queue))
                \<in> measure (\<lambda>(rows, cols, st). bfs_measure rows cols st)"
    by simp
qed

text \<open>
  The whole function. \<open>np.full\<close> and \<open>np.zeros\<close> raise \<open>ValueError\<close> on a negative
  dimension; otherwise the seeded state is expanded until the queue is empty and the
  distance array is returned.
\<close>

definition bfs_run :: "int \<Rightarrow> int \<Rightarrow> coord list \<Rightarrow> bfs_state" where
  "bfs_run rows cols police_stations = bfs_loop rows cols (seed rows cols police_stations)"

definition get_nearest_distance_to_police_stations_bfs ::
    "int \<Rightarrow> int \<Rightarrow> coord list \<Rightarrow> error + (coord \<Rightarrow> int)" where
  "get_nearest_distance_to_police_stations_bfs rows cols police_stations =
     (if rows < 0 \<or> cols < 0 then Inl ValueError
      else Inr (fst (bfs_run rows cols police_stations)))"

text \<open>
  The items in the order in which the loop pops them. The source keeps no such log; this
  function runs the same loop and records each \<open>queue.pop(0)\<close>, so that the claims about
  how often a cell is enqueued can be stated.
\<close>

function bfs_pops :: "int \<Rightarrow> int \<Rightarrow> bfs_state \<Rightarrow> (int \<times> int \<times> int) list" where
  "bfs_pops rows cols (distance_map, visited, []) = []"
| "bfs_pops rows cols (distance_map, visited, item # queue) =
     item # bfs_pops rows cols (expand rows cols item (distance_map, visited, queue))"
  by pat_completeness auto
termination
proof (relation "measure (\<lambda>(rows, cols, st). bfs_measure rows cols st)")
  show "wf (measure (\<lambda>(rows, cols, st). bfs_measure rows cols st))" by simp
next
  fix rows cols :: int and distance_map visited item and queue :: "(int \<times> int \<times> int) list"
  have "bfs_measure rows cols (expand rows cols item (distance_map, visited, queue))
        \<le> bfs_measure rows cols (distance_map, visited, queue)"
    by (rule bfs_measure_expand)
  also have "\<dots> < bfs_measure rows cols (distance_map, visited, item # queue)"
    by (simp add: bfs_measure_def)
  finally show "((rows, cols, expand rows cols item (distance_map, visited, queue)),
                 (rows, cols, distance_map, visited, item # queue))
                \<in> measure (\<lambda>(rows, cols, st). bfs_measure rows cols st)"
    by simp
qed

section \<open>Spatial-index strategy\<close>

text \<open>
  \<^verbatim>\<open>
  tree = KDTree(police_stations)
  distance, _ = tree.query((i, j), p=np.inf)
  return distance
  \<close>
  \<open>scipy.spatial.KDTree\<close> is a library class, not code of this repository. It is modelled
  by its documented contract: the constructor needs a two-dimensional array of points and
  raises \<open>ValueError\<close> on the empty list (whose array is one-dimensional); \<open>query\<close> with
  \<open>p = inf\<close> returns the smallest maximum-coordinate-difference distance to a point of
  the tree. The tree is represented by the list of its points. The library returns the
  distance as a float; for integer coordinates it is the integer below, which is exact in
  double precision for magnitudes under \<open>2 ^ 53\<close>, and it is modelled as that integer.
\<close>

definition kdtree_build :: "coord list \<Rightarrow> error + coord list" where
  "kdtree_build points = (if points = [] then Inl ValueError else Inr points)"

definition kdtree_query :: "coord list \<Rightarrow> int \<Rightarrow> int \<Rightarrow> int" where
  "kdtree_query tree i j = Min ((\<lambda>(py, px). max \<bar>i - py\<bar> \<bar>j - px\<bar>) ` set tree)"

definition get_nearest_distance_to_police_stations_kd_tree ::
    "int \<Rightarrow> int \<Rightarrow> coord list \<Rightarrow> error + num" where
  "get_nearest_distance_to_police_stations_kd_tree i j police_stations =
     (case kdtree_build police_stations of
        Inl e \<Rightarrow> Inl e
      | Inr tree \<Rightarrow> Inr (Fin (kdtree_query tree i j)))"

section \<open>Radius solver\<close>

text \<open>
  \<^verbatim>\<open>
  max_distance = 0
  for i in range(rows):
      for j in range(cols):
          distance = get_nearest_distance_to_police_stations_kd_tree(i, j, police_stations)
          max_distance = max(max_distance, distance)
  return max_distance
  \<close>
  The double loop is written once, over the per-cell distance source \<open>nearest\<close>; an
  exception raised by the source leaves both loops, so an error in the accumulator is
  passed through unchanged. The function of the source is the loop over the spatial-index
  strategy.
\<close>

definition radius_step ::
    "(int \<Rightarrow> int \<Rightarrow> error + num) \<Rightarrow> int \<Rightarrow> int \<Rightarrow> error + num \<Rightarrow> error + num" where
  "radius_step nearest i j acc =
     (case acc of
        Inl e \<Rightarrow> Inl e
      | Inr max_distance \<Rightarrow>
          (case nearest i j of
             Inl e \<Rightarrow> Inl e
           | Inr distance \<Rightarrow> Inr (py_max max_distance distance)))"

definition largest_nearest_distance ::
    "(int \<Rightarrow> int \<Rightarrow> error + num) \<Rightarrow> int \<Rightarrow> int \<Rightarrow> error + num" where
  "largest_nearest_distance nearest rows cols =
     fold (\<lambda>i acc. fold (radius_step nearest i) [0..cols - 1] acc) [0..rows - 1] (Inr (Fin 0))"

definition get_largest_nearest_distance_to_police_stations ::
    "int \<Rightarrow> int \<Rightarrow> coord list \<Rightarrow> error + num" where
  "get_largest_nearest_distance_to_police_stations rows cols police_stations =
     largest_nearest_distance
       (\<lambda>i j. get_nearest_distance_to_police_stations_kd_tree i j police_stations) rows cols"

text \<open>The same loop over the brute-force scan and over a flood-fill field computed once.\<close>

definition radius_brutal_force :: "int \<Rightarrow> int \<Rightarrow> coord list \<Rightarrow> error + num" where
  "radius_brutal_force rows cols police_stations =
     largest_nearest_distance
       (\<lambda>i j. Inr (get_nearest_distance_to_police_stations_brutal_force i j police_stations))
       rows cols"

definition radius_bfs :: "int \<Rightarrow> int \<Rightarrow> coord list \<Rightarrow> error + num" where
  "radius_bfs rows cols police_stations =
     (case get_nearest_distance_to_police_stations_bfs rows cols police_stations of
        Inl e \<Rightarrow> Inl e
      | Inr distance_map \<Rightarrow>
          largest_nearest_distance (\<lambda>i j. Inr (Fin (distance_map (i, j)))) rows cols)"

section \<open>Notions the properties are stated with\<close>

text \<open>The Chebyshev distance of the cell \<open>(i, j)\<close> to a station, as both scans compute it.\<close>

definition chebyshev :: "int \<Rightarrow> int \<Rightarrow> coord \<Rightarrow> int" where
  "chebyshev i j s = (case s of (py, px) \<Rightarrow> max \<bar>i - py\<bar> \<bar>j - px\<bar>)"

text \<open>The bounds test \<open>0 <= y < rows and 0 <= x < cols\<close> that guards both flood-fill loops.\<close>

definition in_bounds :: "int \<Rightarrow> int \<Rightarrow> coord \<Rightarrow> bool" where
  "in_bounds rows cols c = (case c of (y, x) \<Rightarrow> 0 \<le> y \<and> y < rows \<and> 0 \<le> x \<and> x < cols)"

text \<open>The solver over an integer-valued distance source, in closed form.\<close>

definition grid_max :: "(int \<Rightarrow> int \<Rightarrow> int) \<Rightarrow> int \<Rightarrow> int \<Rightarrow> int" where
  "grid_max g rows cols =
     fold (\<lambda>i m. fold (\<lambda>j m. max m (g i j)) [0..cols - 1] m) [0..rows - 1] 0"

text \<open>
  The distance of a cell to the nearest station of a set; the flood fill is compared with
  it for the set of stations inside the grid.
\<close>

definition nearest_dist :: "coord set \<Rightarrow> coord \<Rightarrow> int" where
  "nearest_dist S c = Min (chebyshev (fst c) (snd c) ` S)"

text \<open>The cell and the distance of a queue item.\<close>

fun item_cell :: "int \<times> int \<times> int \<Rightarrow> coord" where
  "item_cell (y, x, dist) = (y, x)"

fun item_dist :: "int \<times> int \<times> int \<Rightarrow> int" where
  "item_dist (y, x, dist) = dist"

text \<open>The stations the flood fill starts from: a finite, non-empty set of grid cells.\<close>

definition stations_ok :: "int \<Rightarrow> int \<Rightarrow> coord set \<Rightarrow> bool" where
  "stations_ok rows cols S = (finite S \<and> S \<noteq> {} \<and> (\<forall>s \<in> S. in_bounds rows cols s))"

text \<open>
  Between two iterations of the while loop: marked cells lie in the grid and hold their
  nearest distance; queued items are marked and carry that distance; the queue is sorted
  and spans at most two consecutive distances; a marked cell that is no longer queued
  has all its grid neighbours marked; every station is marked.
\<close>

definition bfs_inv :: "int \<Rightarrow> int \<Rightarrow> coord set \<Rightarrow> bfs_state \<Rightarrow> bool" where
  "bfs_inv rows cols S st = (case st of (dm, vis, q) \<Rightarrow>
      (\<forall>c. vis c \<longrightarrow> in_bounds rows cols c \<and> dm c = nearest_dist S c)
    \<and> (\<forall>e \<in> set q. vis (item_cell e) \<and> item_dist e = nearest_dist S (item_cell e))
    \<and> sorted (map item_dist q)
    \<and> (\<forall>e \<in> set q. \<forall>e' \<in> set q. item_dist e' \<le> item_dist e + 1)
    \<and> (\<forall>cy cx dy dx. vis (cy, cx) \<and> (cy, cx) \<notin> item_cell ` set q \<and> (dy, dx) \<in> set directions
          \<and> in_bounds rows cols (cy + dy, cx + dx) \<longrightarrow> vis (cy + dy, cx + dx))
    \<and> (\<forall>s \<in> S. vis s))"

text \<open>
  Inside one iteration, for the popped item \<open>(y, x, k)\<close> and the directions \<open>done\<close> so far.
\<close>

definition expand_inv ::
    "int \<Rightarrow> int \<Rightarrow> coord set \<Rightarrow> int \<Rightarrow> int \<Rightarrow> int \<Rightarrow> (int \<times> int) set \<Rightarrow> bfs_state \<Rightarrow> bool" where
  "expand_inv rows cols S y x k done st = (case st of (dm, vis, q) \<Rightarrow>
      (\<forall>c. vis c \<longrightarrow> in_bounds rows cols c \<and> dm c = nearest_dist S c)
    \<and> (\<forall>e \<in> set q. vis (item_cell e) \<and> item_dist e = nearest_dist S (item_cell e))
    \<and> vis (y, x) \<and> nearest_dist S (y, x) = k
    \<and> sorted (map item_dist q)
    \<and> (\<forall>e \<in> set q. k \<le> item_dist e \<and> item_dist e \<le> k + 1)
    \<and> (\<forall>cy cx dy dx. vis (cy, cx) \<and> (cy, cx) \<notin> item_cell ` set q \<and> (cy, cx) \<noteq> (y, x)
          \<and> (dy, dx) \<in> set directions
          \<and> in_bounds rows cols (cy + dy, cx + dx) \<longrightarrow> vis (cy + dy, cx + dx))
    \<and> (\<forall>dy dx. (dy, dx) \<in> done \<and> in_bounds rows cols (y + dy, x + dx) \<longrightarrow> vis (y + dy, x + dx))
    \<and> (\<forall>s \<in> S. vis s)
    \<and> (\<forall>c. in_bounds rows cols c \<and> nearest_dist S c \<le> k \<longrightarrow> vis c))"

section \<open>Arithmetic of distances and of the solver's loops\<close>

lemma py_max_Fin: "py_max (Fin a) (Fin b) = Fin (max a b)"
  by (simp add: py_max_def max_def)

lemma py_min_Fin: "py_min (Fin a) (Fin b) = Fin (min a b)"
  by (simp add: py_min_def min_def)

lemma py_min_PInf: "py_min PInf b = b"
  by (cases b) (simp_all add: py_min_def)

lemma py_max_PInf: "py_max m PInf = PInf"
  by (cases m) (simp_all add: py_max_def)

text \<open>When the distance source returns integers, the solver is a double fold of \<open>max\<close>.\<close>

lemma inner_fold_fin:
  "\<forall>j \<in> set js. nearest i j = Inr (Fin (h j)) \<Longrightarrow>
   fold (radius_step nearest i) js (Inr (Fin m)) = Inr (Fin (fold (\<lambda>j m. max m (h j)) js m))"
  by (induction js arbitrary: m) (simp_all add: radius_step_def py_max_Fin)

lemma outer_fold_fin:
  "\<forall>i \<in> set is. \<forall>j \<in> set js. nearest i j = Inr (Fin (g i j)) \<Longrightarrow>
   fold (\<lambda>i acc. fold (radius_step nearest i) js acc) is (Inr (Fin m))
   = Inr (Fin (fold (\<lambda>i m. fold (\<lambda>j m. max m (g i j)) js m) is m))"
proof (induction "is" arbitrary: m)
  case Nil
  then show ?case by simp
next
  case (Cons i "is")
  from Cons.prems have row: "\<forall>j \<in> set js. nearest i j = Inr (Fin (g i j))"
    and rest: "\<forall>i \<in> set is. \<forall>j \<in> set js. nearest i j = Inr (Fin (g i j))"
    by simp_all
  have "fold (radius_step nearest i) js (Inr (Fin m))
        = Inr (Fin (fold (\<lambda>j m. max m (g i j)) js m))"
    using row by (rule inner_fold_fin [where h = "g i"])
  moreover note Cons.IH [OF rest]
  ultimately show ?case by simp
qed

lemma inner_fold_inf:
  "fold (radius_step (\<lambda>i j. Inr PInf) i) js (Inr m) = Inr (if js = [] then m else PInf)"
  by (induction js arbitrary: m) (simp_all add: radius_step_def py_max_PInf)

lemma outer_fold_inf:
  "js \<noteq> [] \<Longrightarrow> fold (\<lambda>i acc. fold (radius_step (\<lambda>i j. Inr PInf) i) js acc) is (Inr m)
     = Inr (if is = [] then m else PInf)"
  by (induction "is" arbitrary: m) (simp_all add: inner_fold_inf)

lemma inner_fold_err: "fold (radius_step nearest i) js (Inl e) = Inl e"
  by (induction js) (simp_all add: radius_step_def)

lemma outer_fold_err:
  "fold (\<lambda>i acc. fold (radius_step nearest i) js acc) is (Inl e) = Inl e"
  by (induction "is") (simp_all add: inner_fold_err)

lemma brutal_force_Nil: "get_nearest_distance_to_police_stations_brutal_force i j [] = PInf"
  by (simp add: get_nearest_distance_to_police_stations_brutal_force_def)

section \<open>The brute-force scan on an empty station list\<close>

text \<open>
  Claim C10. Called with an empty station list, the brute-force scan raises nothing and
  returns positive infinity for every cell \<open>(i, j)\<close>; the solver's loop run over this scan
  on a grid with at least one cell therefore returns an infinite radius, not an error.
\<close>

theorem brutal_force_empty_is_infinite:
  "get_nearest_distance_to_police_stations_brutal_force i j [] = PInf
   \<and> (0 < rows \<and> 0 < cols \<longrightarrow> radius_brutal_force rows cols [] = Inr PInf)"
proof -
  have "radius_brutal_force rows cols [] = Inr PInf" if "0 < rows" "0 < cols"
  proof -
    from that have ne: "[0..cols - 1] \<noteq> []" "[0..rows - 1] \<noteq> []" by simp_all
    show ?thesis
      unfolding radius_brutal_force_def largest_nearest_distance_def brutal_force_Nil
      using ne by (simp add: outer_fold_inf)
  qed
  then show ?thesis by (simp add: brutal_force_Nil)
qed

theorem brutal_force_empty_is_infinite_witness:
  "get_nearest_distance_to_police_stations_brutal_force 0 0 [] = PInf
   \<and> (0::int) < 2 \<and> (0::int) < 3 \<and> radius_brutal_force 2 3 [] = Inr PInf"
  using brutal_force_empty_is_infinite [of 0 0 2 3] by simp

section \<open>The 4 by 4 scenario\<close>

text \<open>
  Claim C6, as stated: on a 4 by 4 grid with stations at \<open>(0, 0)\<close> and \<open>(3, 3)\<close> the solved
  radius is 2. The solver does not return 2 there.
\<close>

theorem radius_4x4_is_not_2:
  "get_largest_nearest_distance_to_police_stations 4 4 [(0, 0), (3, 3)] \<noteq> Inr (Fin 2)"
  by code_simp

text \<open>
  Claim C6, amended: on a 4 by 4 grid with stations at \<open>(0, 0)\<close> and \<open>(3, 3)\<close> the solved
  radius is 3 (the cell \<open>(0, 3)\<close> is at distance 3 from both stations), and the solver's
  loop over the brute-force scan and over the flood-fill field gives 3 as well.
\<close>

theorem radius_4x4_is_3:
  "get_largest_nearest_distance_to_police_stations 4 4 [(0, 0), (3, 3)] = Inr (Fin 3)
   \<and> radius_brutal_force 4 4 [(0, 0), (3, 3)] = Inr (Fin 3)
   \<and> radius_bfs 4 4 [(0, 0), (3, 3)] = Inr (Fin 3)"
  by code_simp

section \<open>Bounds of the double fold of max\<close>




lemma inner_max_mono:
  "\<forall>j \<in> set js. h j \<le> h' j \<Longrightarrow> m \<le> m' \<Longrightarrow>
   fold (\<lambda>j m. max m (h j)) js (m::int) \<le> fold (\<lambda>j m. max m (h' j)) js m'"
proof (induction js arbitrary: m m')
  case Nil
  then show ?case by simp
next
  case (Cons k js)
  from Cons.prems have "max m (h k) \<le> max m' (h' k)" by auto
  moreover from Cons.prems have "\<forall>j \<in> set js. h j \<le> h' j" by simp
  ultimately show ?case using Cons.IH by simp
qed




lemma outer_max_mono:
  "\<forall>i \<in> set is. \<forall>j \<in> set js. g i j \<le> g' i j \<Longrightarrow> m \<le> m' \<Longrightarrow>
   fold (\<lambda>i m. fold (\<lambda>j m. max m (g i j)) js m) is (m::int)
   \<le> fold (\<lambda>i m. fold (\<lambda>j m. max m (g' i j)) js m) is m'"
proof (induction "is" arbitrary: m m')
  case Nil
  then show ?case by simp
next
  case (Cons k "is")
  from Cons.prems have "\<forall>j \<in> set js. g k j \<le> g' k j" by simp
  then have "fold (\<lambda>j m. max m (g k j)) js m \<le> fold (\<lambda>j m. max m (g' k j)) js m'"
    using Cons.prems(2) by (rule inner_max_mono)
  moreover from Cons.prems have "\<forall>i \<in> set is. \<forall>j \<in> set js. g i j \<le> g' i j" by simp
  ultimately show ?case using Cons.IH by simp
qed

lemma largest_nearest_distance_fin:
  assumes "\<forall>i j. 0 \<le> i \<and> i < rows \<and> 0 \<le> j \<and> j < cols \<longrightarrow> nearest i j = Inr (Fin (g i j))"
  shows "largest_nearest_distance nearest rows cols = Inr (Fin (grid_max g rows cols))"
proof -
  from assms have "\<forall>i \<in> set [0..rows - 1]. \<forall>j \<in> set [0..cols - 1]. nearest i j = Inr (Fin (g i j))"
    by simp
  then show ?thesis
    unfolding largest_nearest_distance_def grid_max_def by (rule outer_fold_fin)
qed

lemma grid_max_cong:
  assumes "\<forall>i j. 0 \<le> i \<and> i < rows \<and> 0 \<le> j \<and> j < cols \<longrightarrow> g i j = g' i j"
  shows "grid_max g rows cols = grid_max g' rows cols"
proof -
  have le: "grid_max a rows cols \<le> grid_max b rows cols"
    if "\<forall>i j. 0 \<le> i \<and> i < rows \<and> 0 \<le> j \<and> j < cols \<longrightarrow> a i j = b i j" for a b
    unfolding grid_max_def using that by (intro outer_max_mono) simp_all
  from assms show ?thesis by (intro antisym le) simp_all
qed





lemma grid_max_empty: "rows \<le> 0 \<or> cols \<le> 0 \<Longrightarrow> grid_max g rows cols = 0"
proof -
  have row: "fold (\<lambda>i m. m) is (m::int) = m" for "is" :: "int list" and m
    by (induction "is") simp_all
  assume "rows \<le> 0 \<or> cols \<le> 0"
  then consider "rows \<le> 0" | "cols \<le> 0" by blast
  then show ?thesis
  proof cases
    case 1
    then have "[0..rows - 1] = []" by simp
    then show ?thesis by (simp add: grid_max_def)
  next
    case 2
    then have "[0..cols - 1] = []" by simp
    then show ?thesis by (simp add: grid_max_def row)
  qed
qed

section \<open>Nearest distance as a minimum\<close>

lemma chebyshev_nonneg: "0 \<le> chebyshev i j s"
  by (cases s) (simp add: chebyshev_def)

lemma kdtree_query_chebyshev: "kdtree_query tree i j = Min (chebyshev i j ` set tree)"
proof -
  have "(\<lambda>(py, px). max \<bar>i - py\<bar> \<bar>j - px\<bar>) = chebyshev i j"
    by (rule ext) (simp add: chebyshev_def)
  then show ?thesis by (simp add: kdtree_query_def)
qed

lemma brutal_force_fold:
  "fold (\<lambda>(py, px) distance. py_min distance (Fin (max \<bar>i - py\<bar> \<bar>j - px\<bar>))) ps (Fin m)
   = Fin (Min (insert m (chebyshev i j ` set ps)))"
proof (induction ps arbitrary: m)
  case Nil
  then show ?case by simp
next
  case (Cons s ps)
  obtain py px where s: "s = (py, px)" by (cases s)
  have c: "max \<bar>i - py\<bar> \<bar>j - px\<bar> = chebyshev i j s" by (simp add: s chebyshev_def)
  let ?A = "chebyshev i j ` set ps"
  have "fold (\<lambda>(py, px) distance. py_min distance (Fin (max \<bar>i - py\<bar> \<bar>j - px\<bar>))) (s # ps) (Fin m)
        = Fin (Min (insert (min m (chebyshev i j s)) ?A))"
    by (simp add: s py_min_Fin Cons.IH) (simp add: c [unfolded s])
  also have "Min (insert (min m (chebyshev i j s)) ?A) = Min (insert m (insert (chebyshev i j s) ?A))"
  proof (cases "ps = []")
    case True
    then show ?thesis by simp
  next
    case False
    then have "?A \<noteq> {}" "finite ?A" by simp_all
    then show ?thesis by (simp add: min.assoc)
  qed
  finally show ?case by simp
qed

lemma brutal_force_Min:
  assumes "ps \<noteq> []"
  shows "get_nearest_distance_to_police_stations_brutal_force i j ps
         = Fin (Min (chebyshev i j ` set ps))"
proof -
  from assms obtain s rest where ps: "ps = s # rest" by (cases ps) auto
  obtain py px where s: "s = (py, px)" by (cases s)
  show ?thesis
    unfolding get_nearest_distance_to_police_stations_brutal_force_def ps
    by (simp add: s py_min_PInf brutal_force_fold) (simp add: chebyshev_def)
qed

lemma kd_tree_Min:
  assumes "ps \<noteq> []"
  shows "get_nearest_distance_to_police_stations_kd_tree i j ps
         = Inr (Fin (Min (chebyshev i j ` set ps)))"
  using assms
  by (simp add: get_nearest_distance_to_police_stations_kd_tree_def kdtree_build_def
      kdtree_query_chebyshev)

lemma kd_tree_Nil: "get_nearest_distance_to_police_stations_kd_tree i j [] = Inl ValueError"
  by (simp add: get_nearest_distance_to_police_stations_kd_tree_def kdtree_build_def)

lemma nearest_nonneg: "ps \<noteq> [] \<Longrightarrow> 0 \<le> Min (chebyshev i j ` set ps)"
  by (simp add: chebyshev_nonneg)


lemma solver_closed_form:
  assumes "ps \<noteq> []"
  shows "get_largest_nearest_distance_to_police_stations rows cols ps
         = Inr (Fin (grid_max (\<lambda>i j. Min (chebyshev i j ` set ps)) rows cols))"
  unfolding get_largest_nearest_distance_to_police_stations_def
  by (rule largest_nearest_distance_fin) (simp add: kd_tree_Min [OF assms])

lemma radius_brutal_force_closed_form:
  assumes "ps \<noteq> []"
  shows "radius_brutal_force rows cols ps
         = Inr (Fin (grid_max (\<lambda>i j. Min (chebyshev i j ` set ps)) rows cols))"
  unfolding radius_brutal_force_def
  by (rule largest_nearest_distance_fin) (simp add: brutal_force_Min [OF assms])

section \<open>Monotonicity in the station list\<close>



section \<open>Tightness of the solved radius\<close>




section \<open>Invalid inputs to the solver\<close>

lemma inner_fold_raises:
  "js \<noteq> [] \<Longrightarrow> \<forall>j. nearest i j = Inl e \<Longrightarrow> fold (radius_step nearest i) js (Inr m) = Inl e"
  by (cases js) (simp_all add: radius_step_def inner_fold_err)

lemma outer_fold_raises:
  assumes "is \<noteq> []" "js \<noteq> []" "\<forall>i j. nearest i j = Inl e"
  shows "fold (\<lambda>i acc. fold (radius_step nearest i) js acc) is (Inr m) = Inl e"
proof -
  from assms(1) obtain i rest where "is": "is = i # rest" by (cases "is") auto
  have "fold (radius_step nearest i) js (Inr m) = Inl e"
    using assms(2,3) by (intro inner_fold_raises) simp_all
  then show ?thesis by (simp add: "is" outer_fold_err)
qed

lemma outer_fold_no_cols: "fold (\<lambda>i acc. acc) is acc = acc"
  by (induction "is") simp_all

lemma largest_nearest_distance_empty:
  assumes "rows \<le> 0 \<or> cols \<le> 0"
  shows "largest_nearest_distance nearest rows cols = Inr (Fin 0)"
proof -
  from assms consider "rows \<le> 0" | "cols \<le> 0" by blast
  then show ?thesis
  proof cases
    case 1
    then have "[0..rows - 1] = []" by simp
    then show ?thesis by (simp add: largest_nearest_distance_def)
  next
    case 2
    then have "[0..cols - 1] = []" by simp
    then show ?thesis by (simp add: largest_nearest_distance_def outer_fold_no_cols)
  qed
qed

text \<open>
  Claim C3, as stated: the solver called with \<open>rows <= 0\<close>, \<open>cols <= 0\<close> or an empty station
  list yields a validation error and no radius. With \<open>rows = 0\<close> the solver returns the
  radius 0 and raises nothing.
\<close>

theorem solver_zero_rows_returns_radius:
  "get_largest_nearest_distance_to_police_stations 0 5 [(0, 0)] = Inr (Fin 0)"
  by code_simp

text \<open>
  Claim C3, amended: the solver validates nothing itself. With an empty station list on a
  grid with \<open>rows > 0\<close> and \<open>cols > 0\<close> it fails, with the error the spatial-index
  constructor raises at the first cell, and returns no radius; with \<open>rows <= 0\<close> or
  \<open>cols <= 0\<close> it queries no cell, raises nothing and returns the radius 0, whatever the
  station list.
\<close>

theorem solver_invalid_inputs:
  "(0 < rows \<and> 0 < cols \<longrightarrow>
      get_largest_nearest_distance_to_police_stations rows cols [] = Inl ValueError)
   \<and> (rows \<le> 0 \<or> cols \<le> 0 \<longrightarrow>
      get_largest_nearest_distance_to_police_stations rows cols police_stations = Inr (Fin 0))"
proof (intro conjI impI)
  assume "0 < rows \<and> 0 < cols"
  then have ne: "[0..rows - 1] \<noteq> []" "[0..cols - 1] \<noteq> []" by simp_all
  show "get_largest_nearest_distance_to_police_stations rows cols [] = Inl ValueError"
    unfolding get_largest_nearest_distance_to_police_stations_def largest_nearest_distance_def
    using ne by (rule outer_fold_raises) (simp add: kd_tree_Nil)
next
  assume "rows \<le> 0 \<or> cols \<le> 0"
  then show "get_largest_nearest_distance_to_police_stations rows cols police_stations = Inr (Fin 0)"
    unfolding get_largest_nearest_distance_to_police_stations_def
    by (rule largest_nearest_distance_empty)
qed

theorem solver_invalid_inputs_witness:
  "(0::int) < 2 \<and> (0::int) < 3
   \<and> get_largest_nearest_distance_to_police_stations 2 3 [] = Inl ValueError
   \<and> (0::int) \<le> 0
   \<and> get_largest_nearest_distance_to_police_stations 0 3 [(1, 1)] = Inr (Fin 0)"
  using solver_invalid_inputs [of 2 3 "[]"] solver_invalid_inputs [of 0 3 "[(1, 1)]"] by simp

section \<open>Seeding the flood fill\<close>

lemma seed_station_out_of_bounds:
  "\<not> in_bounds rows cols s \<Longrightarrow> seed_station rows cols s st = st"
  by (cases s; cases st) (auto simp: seed_station_def in_bounds_def)

lemma fold_seed_station_filter:
  "fold (seed_station rows cols) ps st
   = fold (seed_station rows cols) (filter (in_bounds rows cols) ps) st"
  by (induction ps arbitrary: st) (simp_all add: seed_station_out_of_bounds)

lemma seed_filter: "seed rows cols ps = seed rows cols (filter (in_bounds rows cols) ps)"
  unfolding seed_def by (rule fold_seed_station_filter)

lemma seed_none_in_bounds:
  assumes "\<forall>s \<in> set ps. \<not> in_bounds rows cols s"
  shows "seed rows cols ps = bfs_init"
proof -
  from assms have "filter (in_bounds rows cols) ps = []" by (simp add: filter_empty_conv)
  then show ?thesis using seed_filter [of rows cols ps] by (simp add: seed_def)
qed

section \<open>The flood fill without a station inside the grid\<close>

text \<open>
  Claim C4, as stated: when no station lies inside the grid the flood fill fails with an
  error. On a 2 by 2 grid with the single station \<open>(5, 5)\<close> it returns a distance field.
\<close>

theorem bfs_outside_station_returns_field:
  "get_nearest_distance_to_police_stations_bfs 2 2 [(5, 5)] = Inr (fst bfs_init)"
  by (simp add: get_nearest_distance_to_police_stations_bfs_def bfs_run_def seed_def
      seed_station_def bfs_init_def)

text \<open>
  Claim C4, amended: for \<open>rows >= 0\<close> and \<open>cols >= 0\<close> and a station list with no station
  inside the grid, the flood fill raises nothing: the queue stays empty, nothing is popped,
  no cell is marked or written, and the distance field is returned as it was allocated.
\<close>

theorem bfs_no_station_in_bounds:
  assumes "0 \<le> rows" "0 \<le> cols" "\<forall>s \<in> set police_stations. \<not> in_bounds rows cols s"
  shows "get_nearest_distance_to_police_stations_bfs rows cols police_stations = Inr (fst bfs_init)
         \<and> bfs_run rows cols police_stations = bfs_init
         \<and> bfs_pops rows cols (seed rows cols police_stations) = []"
proof -
  have "seed rows cols police_stations = bfs_init" using assms(3) by (rule seed_none_in_bounds)
  then show ?thesis using assms(1,2)
    by (simp add: get_nearest_distance_to_police_stations_bfs_def bfs_run_def bfs_init_def)
qed

theorem bfs_no_station_in_bounds_witness:
  "get_nearest_distance_to_police_stations_bfs 2 2 [(5, 5), (-1, 0)] = Inr (fst bfs_init)
         \<and> bfs_run 2 2 [(5, 5), (-1, 0)] = bfs_init
         \<and> bfs_pops 2 2 (seed 2 2 [(5, 5), (-1, 0)]) = []"
  by (rule bfs_no_station_in_bounds) (simp_all add: in_bounds_def)

section \<open>The Chebyshev distance on the grid\<close>

lemma directions_iff:
  "(dy, dx) \<in> set directions \<longleftrightarrow> \<bar>dy\<bar> \<le> 1 \<and> \<bar>dx\<bar> \<le> 1 \<and> (dy, dx) \<noteq> (0, 0)"
proof
  assume "(dy, dx) \<in> set directions"
  then show "\<bar>dy\<bar> \<le> 1 \<and> \<bar>dx\<bar> \<le> 1 \<and> (dy, dx) \<noteq> (0, 0)"
    by (auto simp: directions_def)
next
  assume a: "\<bar>dy\<bar> \<le> 1 \<and> \<bar>dx\<bar> \<le> 1 \<and> (dy, dx) \<noteq> (0, 0)"
  then have "dy = -1 \<or> dy = 0 \<or> dy = 1" "dx = -1 \<or> dx = 0 \<or> dx = 1" by arith+
  with a show "(dy, dx) \<in> set directions" by (auto simp: directions_def)
qed

lemma chebyshev_step:
  "\<bar>dy\<bar> \<le> 1 \<Longrightarrow> \<bar>dx\<bar> \<le> 1 \<Longrightarrow> chebyshev (cy + dy) (cx + dx) s \<le> chebyshev cy cx s + 1"
  by (cases s) (simp add: chebyshev_def, linarith)

lemma chebyshev_zero: "chebyshev cy cx s = 0 \<longleftrightarrow> s = (cy, cx)"
  by (cases s) (auto simp: chebyshev_def)

lemma nearest_dist_le:
  "finite S \<Longrightarrow> s \<in> S \<Longrightarrow> nearest_dist S c \<le> chebyshev (fst c) (snd c) s"
  by (simp add: nearest_dist_def)

lemma nearest_dist_attained:
  "finite S \<Longrightarrow> S \<noteq> {} \<Longrightarrow> \<exists>s \<in> S. chebyshev (fst c) (snd c) s = nearest_dist S c"
proof -
  assume "finite S" "S \<noteq> {}"
  then have "Min (chebyshev (fst c) (snd c) ` S) \<in> chebyshev (fst c) (snd c) ` S"
    by (intro Min_in) simp_all
  then show ?thesis by (auto simp: nearest_dist_def)
qed

lemma nearest_dist_nonneg:
  assumes "finite S" "S \<noteq> {}"
  shows "0 \<le> nearest_dist S c"
proof -
  from nearest_dist_attained [OF assms, of c]
  obtain s where "chebyshev (fst c) (snd c) s = nearest_dist S c" by auto
  then show ?thesis using chebyshev_nonneg [of "fst c" "snd c" s] by simp
qed

lemma nearest_dist_station: "finite S \<Longrightarrow> c \<in> S \<Longrightarrow> nearest_dist S c = 0"
proof -
  assume S: "finite S" "c \<in> S"
  then have "nearest_dist S c \<le> chebyshev (fst c) (snd c) c" by (rule nearest_dist_le)
  also have "\<dots> = 0" by (simp add: chebyshev_zero)
  finally show ?thesis using nearest_dist_nonneg [of S c] S by auto
qed

lemma nearest_dist_zero: "finite S \<Longrightarrow> S \<noteq> {} \<Longrightarrow> nearest_dist S c = 0 \<Longrightarrow> c \<in> S"
  using nearest_dist_attained [of S c] by (auto simp: chebyshev_zero)

lemma nearest_dist_step:
  assumes "finite S" "S \<noteq> {}" "\<bar>dy\<bar> \<le> 1" "\<bar>dx\<bar> \<le> 1"
  shows "nearest_dist S (cy + dy, cx + dx) \<le> nearest_dist S (cy, cx) + 1"
proof -
  from nearest_dist_attained [OF assms(1,2), of "(cy, cx)"]
  obtain s where s: "s \<in> S" "chebyshev cy cx s = nearest_dist S (cy, cx)" by auto
  have "nearest_dist S (cy + dy, cx + dx) \<le> chebyshev (cy + dy) (cx + dx) s"
    using nearest_dist_le [OF assms(1) s(1), of "(cy + dy, cx + dx)"] by simp
  also have "\<dots> \<le> chebyshev cy cx s + 1" using assms(3,4) by (rule chebyshev_step)
  finally show ?thesis using s(2) by simp
qed

text \<open>
  From a cell at distance \<open>n + 1\<close> one king move towards a nearest station stays inside the
  grid and reaches a cell at distance \<open>n\<close>; the cell is that one's neighbour in one of the
  eight directions.
\<close>

lemma nearest_dist_pred:
  assumes fin: "finite S" and sub: "\<forall>s \<in> S. in_bounds rows cols s"
    and c: "in_bounds rows cols (cy, cx)" and n: "nearest_dist S (cy, cx) = n + 1" "0 \<le> n"
    and ne: "S \<noteq> {}"
  shows "\<exists>py px dy dx. in_bounds rows cols (py, px) \<and> nearest_dist S (py, px) = n
           \<and> (dy, dx) \<in> set directions \<and> cy = py + dy \<and> cx = px + dx"
proof -
  from nearest_dist_attained [OF fin ne, of "(cy, cx)"]
  obtain s where s: "s \<in> S" "chebyshev cy cx s = n + 1" using n by auto
  obtain sy sx where sp: "s = (sy, sx)" by (cases s)
  from s sub sp have sb: "0 \<le> sy" "sy < rows" "0 \<le> sx" "sx < cols"
    by (auto simp: in_bounds_def)
  from c have cb: "0 \<le> cy" "cy < rows" "0 \<le> cx" "cx < cols" by (auto simp: in_bounds_def)
  define ey where "ey = sgn (sy - cy)"
  define ex where "ex = sgn (sx - cx)"
  have ch: "max \<bar>cy - sy\<bar> \<bar>cx - sx\<bar> = n + 1" using s(2) by (simp add: sp chebyshev_def)
  have e1: "\<bar>ey\<bar> \<le> 1" "\<bar>ex\<bar> \<le> 1" by (simp_all add: ey_def ex_def sgn_if)
  have e0: "(- ey, - ex) \<noteq> (0, 0)" using ch n(2) by (auto simp: ey_def ex_def sgn_if)
  have inb: "in_bounds rows cols (cy + ey, cx + ex)"
    using sb cb by (auto simp: in_bounds_def ey_def ex_def sgn_if)
  have "chebyshev (cy + ey) (cx + ex) s = n"
    using ch n(2) by (auto simp: sp chebyshev_def ey_def ex_def sgn_if)
  then have up: "nearest_dist S (cy + ey, cx + ex) \<le> n"
    using nearest_dist_le [OF fin s(1), of "(cy + ey, cx + ex)"] by simp
  have "nearest_dist S ((cy + ey) + (- ey), (cx + ex) + (- ex))
        \<le> nearest_dist S (cy + ey, cx + ex) + 1"
    using fin ne e1 by (intro nearest_dist_step) simp_all
  then have lo: "n \<le> nearest_dist S (cy + ey, cx + ex)" using n(1) by simp
  have "(- ey, - ex) \<in> set directions" using e0 e1 by (simp add: directions_iff)
  with inb up lo show ?thesis
    by (intro exI [of _ "cy + ey"] exI [of _ "cx + ex"] exI [of _ "- ey"] exI [of _ "- ex"]) simp
qed

section \<open>The invariant of the flood fill\<close>

text \<open>Every grid cell that is nearer than all queued items is already marked.\<close>

lemma visited_below:
  assumes ok: "stations_ok rows cols S" and inv: "bfs_inv rows cols S (dm, vis, q)"
    and c: "in_bounds rows cols c" and bound: "\<forall>e \<in> set q. nearest_dist S c \<le> item_dist e"
  shows "vis c"
  using c bound
proof (induction "nat (nearest_dist S c)" arbitrary: c)
  case 0
  from ok have fin: "finite S" "S \<noteq> {}" by (simp_all add: stations_ok_def)
  from 0 nearest_dist_nonneg [OF fin, of c] have "nearest_dist S c = 0" by simp
  then have "c \<in> S" using fin by (intro nearest_dist_zero)
  then show ?case using inv by (simp add: bfs_inv_def)
next
  case (Suc n)
  from ok have fin: "finite S" "S \<noteq> {}" and sub: "\<forall>s \<in> S. in_bounds rows cols s"
    by (simp_all add: stations_ok_def)
  obtain cy cx where cp: "c = (cy, cx)" by (cases c)
  from Suc.hyps(2) have nd: "nearest_dist S (cy, cx) = int n + 1" by (simp add: cp)
  from nearest_dist_pred [OF fin(1) sub _ nd _ fin(2)] Suc.prems(1)
  obtain py px dy dx where p: "in_bounds rows cols (py, px)" "nearest_dist S (py, px) = int n"
    "(dy, dx) \<in> set directions" "cy = py + dy" "cx = px + dx"
    by (auto simp: cp)
  have pb: "\<forall>e \<in> set q. nearest_dist S (py, px) \<le> item_dist e"
    using Suc.prems(2) nd p(2) by (auto simp: cp)
  have "n = nat (nearest_dist S (py, px))" using p(2) by simp
  then have pv: "vis (py, px)" using p(1) pb by (rule Suc.hyps(1))
  have "(py, px) \<notin> item_cell ` set q"
  proof
    assume "(py, px) \<in> item_cell ` set q"
    then obtain e where e: "e \<in> set q" "item_cell e = (py, px)" by auto
    with inv have "item_dist e = nearest_dist S (py, px)" by (auto simp: bfs_inv_def)
    moreover from e(1) Suc.prems(2) have "nearest_dist S (cy, cx) \<le> item_dist e"
      by (simp add: cp)
    ultimately show False using nd p(2) by simp
  qed
  with pv p(3) Suc.prems(1) inv have "vis (py + dy, px + dx)"
    unfolding bfs_inv_def cp p(4,5) by simp
  then show ?case by (simp add: cp p(4,5))
qed

lemma bfs_invD:
  assumes "bfs_inv rows cols S (dm, vis, q)"
  shows "\<And>c. vis c \<Longrightarrow> in_bounds rows cols c"
    and "\<And>c. vis c \<Longrightarrow> dm c = nearest_dist S c"
    and "\<And>e. e \<in> set q \<Longrightarrow> vis (item_cell e)"
    and "\<And>e. e \<in> set q \<Longrightarrow> item_dist e = nearest_dist S (item_cell e)"
    and "sorted (map item_dist q)"
    and "\<And>e e'. e \<in> set q \<Longrightarrow> e' \<in> set q \<Longrightarrow> item_dist e' \<le> item_dist e + 1"
    and "\<And>cy cx dy dx. vis (cy, cx) \<Longrightarrow> (cy, cx) \<notin> item_cell ` set q \<Longrightarrow>
           (dy, dx) \<in> set directions \<Longrightarrow> in_bounds rows cols (cy + dy, cx + dx) \<Longrightarrow>
           vis (cy + dy, cx + dx)"
    and "\<And>s. s \<in> S \<Longrightarrow> vis s"
  using assms unfolding bfs_inv_def prod.case by blast+

lemma bfs_invI:
  assumes "\<And>c. vis c \<Longrightarrow> in_bounds rows cols c"
    and "\<And>c. vis c \<Longrightarrow> dm c = nearest_dist S c"
    and "\<And>e. e \<in> set q \<Longrightarrow> vis (item_cell e)"
    and "\<And>e. e \<in> set q \<Longrightarrow> item_dist e = nearest_dist S (item_cell e)"
    and "sorted (map item_dist q)"
    and "\<And>e e'. e \<in> set q \<Longrightarrow> e' \<in> set q \<Longrightarrow> item_dist e' \<le> item_dist e + 1"
    and "\<And>cy cx dy dx. vis (cy, cx) \<Longrightarrow> (cy, cx) \<notin> item_cell ` set q \<Longrightarrow>
           (dy, dx) \<in> set directions \<Longrightarrow> in_bounds rows cols (cy + dy, cx + dx) \<Longrightarrow>
           vis (cy + dy, cx + dx)"
    and "\<And>s. s \<in> S \<Longrightarrow> vis s"
  shows "bfs_inv rows cols S (dm, vis, q)"
  unfolding bfs_inv_def prod.case
proof (intro conjI allI ballI impI)
  fix cy cx dy dx
  assume "vis (cy, cx) \<and> (cy, cx) \<notin> item_cell ` set q \<and> (dy, dx) \<in> set directions
          \<and> in_bounds rows cols (cy + dy, cx + dx)"
  then show "vis (cy + dy, cx + dx)" using assms(7) by blast
qed (use assms in \<open>blast+\<close>)

lemma expand_invD:
  assumes "expand_inv rows cols S y x k done (dm, vis, q)"
  shows "\<And>c. vis c \<Longrightarrow> in_bounds rows cols c"
    and "\<And>c. vis c \<Longrightarrow> dm c = nearest_dist S c"
    and "\<And>e. e \<in> set q \<Longrightarrow> vis (item_cell e)"
    and "\<And>e. e \<in> set q \<Longrightarrow> item_dist e = nearest_dist S (item_cell e)"
    and "vis (y, x)"
    and "nearest_dist S (y, x) = k"
    and "sorted (map item_dist q)"
    and "\<And>e. e \<in> set q \<Longrightarrow> k \<le> item_dist e"
    and "\<And>e. e \<in> set q \<Longrightarrow> item_dist e \<le> k + 1"
    and "\<And>cy cx dy dx. vis (cy, cx) \<Longrightarrow> (cy, cx) \<notin> item_cell ` set q \<Longrightarrow> (cy, cx) \<noteq> (y, x) \<Longrightarrow>
           (dy, dx) \<in> set directions \<Longrightarrow> in_bounds rows cols (cy + dy, cx + dx) \<Longrightarrow>
           vis (cy + dy, cx + dx)"
    and "\<And>dy dx. (dy, dx) \<in> done \<Longrightarrow> in_bounds rows cols (y + dy, x + dx) \<Longrightarrow> vis (y + dy, x + dx)"
    and "\<And>s. s \<in> S \<Longrightarrow> vis s"
    and "\<And>c. in_bounds rows cols c \<Longrightarrow> nearest_dist S c \<le> k \<Longrightarrow> vis c"
  using assms unfolding expand_inv_def prod.case by blast+

lemma expand_invI:
  assumes "\<And>c. vis c \<Longrightarrow> in_bounds rows cols c"
    and "\<And>c. vis c \<Longrightarrow> dm c = nearest_dist S c"
    and "\<And>e. e \<in> set q \<Longrightarrow> vis (item_cell e)"
    and "\<And>e. e \<in> set q \<Longrightarrow> item_dist e = nearest_dist S (item_cell e)"
    and "vis (y, x)"
    and "nearest_dist S (y, x) = k"
    and "sorted (map item_dist q)"
    and "\<And>e. e \<in> set q \<Longrightarrow> k \<le> item_dist e"
    and "\<And>e. e \<in> set q \<Longrightarrow> item_dist e \<le> k + 1"
    and "\<And>cy cx dy dx. vis (cy, cx) \<Longrightarrow> (cy, cx) \<notin> item_cell ` set q \<Longrightarrow> (cy, cx) \<noteq> (y, x) \<Longrightarrow>
           (dy, dx) \<in> set directions \<Longrightarrow> in_bounds rows cols (cy + dy, cx + dx) \<Longrightarrow>
           vis (cy + dy, cx + dx)"
    and "\<And>dy dx. (dy, dx) \<in> done \<Longrightarrow> in_bounds rows cols (y + dy, x + dx) \<Longrightarrow> vis (y + dy, x + dx)"
    and "\<And>s. s \<in> S \<Longrightarrow> vis s"
    and "\<And>c. in_bounds rows cols c \<Longrightarrow> nearest_dist S c \<le> k \<Longrightarrow> vis c"
  shows "expand_inv rows cols S y x k done (dm, vis, q)"
  unfolding expand_inv_def prod.case
proof (intro conjI allI ballI impI)
  fix cy cx dy dx
  assume "vis (cy, cx) \<and> (cy, cx) \<notin> item_cell ` set q \<and> (cy, cx) \<noteq> (y, x)
          \<and> (dy, dx) \<in> set directions \<and> in_bounds rows cols (cy + dy, cx + dx)"
  then show "vis (cy + dy, cx + dx)" using assms(10) by blast
next
  fix dy dx
  assume "(dy, dx) \<in> done \<and> in_bounds rows cols (y + dy, x + dx)"
  then show "vis (y + dy, x + dx)" using assms(11) by blast
next
  fix c
  assume "in_bounds rows cols c \<and> nearest_dist S c \<le> k"
  then show "vis c" using assms(13) by blast
qed (use assms in \<open>blast+\<close>)

lemma expand_inv_start:
  assumes ok: "stations_ok rows cols S" and inv: "bfs_inv rows cols S (dm, vis, (y, x, k) # q)"
  shows "expand_inv rows cols S y x k {} (dm, vis, q)"
proof -
  note D = bfs_invD [OF inv]
  have h1: "in_bounds rows cols c" if "vis c" for c using that by (rule D(1))
  have h2: "dm c = nearest_dist S c" if "vis c" for c using that by (rule D(2))
  have h3: "vis (item_cell e)" if "e \<in> set q" for e using that D(3) [of e] by simp
  have h4: "item_dist e = nearest_dist S (item_cell e)" if "e \<in> set q" for e
    using that D(4) [of e] by simp
  have h5: "vis (y, x)" using D(3) [of "(y, x, k)"] by simp
  have h6: "nearest_dist S (y, x) = k" using D(4) [of "(y, x, k)"] by simp
  have h7: "sorted (map item_dist q)" using D(5) by simp
  have h8: "k \<le> item_dist e" if "e \<in> set q" for e using that D(5) by auto
  have h9: "item_dist e \<le> k + 1" if "e \<in> set q" for e
    using that D(6) [of "(y, x, k)" e] by simp
  have h10: "vis (cy + dy, cx + dx)"
    if "vis (cy, cx)" "(cy, cx) \<notin> item_cell ` set q" "(cy, cx) \<noteq> (y, x)"
      "(dy, dx) \<in> set directions" "in_bounds rows cols (cy + dy, cx + dx)" for cy cx dy dx
    using that D(7) [of cy cx dy dx] by simp
  have h11: "vis (y + dy, x + dx)"
    if "(dy, dx) \<in> {}" "in_bounds rows cols (y + dy, x + dx)" for dy dx
    using that by simp
  have h12: "vis s" if "s \<in> S" for s using that by (rule D(8))
  have h13: "vis c" if "in_bounds rows cols c" "nearest_dist S c \<le> k" for c
  proof (rule visited_below [OF ok inv that(1)])
    show "\<forall>e \<in> set ((y, x, k) # q). nearest_dist S c \<le> item_dist e"
    proof
      fix e assume "e \<in> set ((y, x, k) # q)"
      then consider "e = (y, x, k)" | "e \<in> set q" by auto
      then show "nearest_dist S c \<le> item_dist e"
      proof cases
        case 1
        then show ?thesis using that(2) by simp
      next
        case 2
        then have "k \<le> item_dist e" by (rule h8)
        then show ?thesis using that(2) by simp
      qed
    qed
  qed
  show ?thesis
    by (rule expand_invI) (use h1 h2 h3 h4 h5 h6 h7 h8 h9 h10 h11 h12 h13 in \<open>blast+\<close>)
qed

lemma visit_dir_skip:
  "\<not> (in_bounds rows cols (y + dy, x + dx) \<and> \<not> vis (y + dy, x + dx)) \<Longrightarrow>
   visit_dir rows cols y x k (dy, dx) (dm, vis, q) = (dm, vis, q)"
  by (auto simp: visit_dir_def in_bounds_def Let_def)

lemma visit_dir_take:
  "in_bounds rows cols (y + dy, x + dx) \<Longrightarrow> \<not> vis (y + dy, x + dx) \<Longrightarrow>
   visit_dir rows cols y x k (dy, dx) (dm, vis, q)
   = (dm((y + dy, x + dx) := k + 1), vis((y + dy, x + dx) := True), q @ [(y + dy, x + dx, k + 1)])"
  by (simp add: visit_dir_def in_bounds_def Let_def)

lemma expand_inv_visit:
  assumes ok: "stations_ok rows cols S"
    and inv: "expand_inv rows cols S y x k done (dm, vis, q)"
    and dir: "(dy, dx) \<in> set directions"
  shows "expand_inv rows cols S y x k (insert (dy, dx) done)
           (visit_dir rows cols y x k (dy, dx) (dm, vis, q))"
proof (cases "in_bounds rows cols (y + dy, x + dx) \<and> \<not> vis (y + dy, x + dx)")
  case False
  note D = expand_invD [OF inv]
  have h11: "vis (y + dy', x + dx')"
    if "(dy', dx') \<in> insert (dy, dx) done" "in_bounds rows cols (y + dy', x + dx')" for dy' dx'
  proof (cases "(dy', dx') = (dy, dx)")
    case True
    then show ?thesis using that(2) False by auto
  next
    case neq: False
    with that(1) have "(dy', dx') \<in> done" by blast
    then show ?thesis using that(2) by (rule D(11))
  qed
  have "expand_inv rows cols S y x k (insert (dy, dx) done) (dm, vis, q)"
    by (rule expand_invI)
      (use D(1) D(2) D(3) D(4) D(5) D(6) D(7) D(8) D(9) D(10) h11 D(12) D(13) in \<open>blast+\<close>)
  then show ?thesis using False by (simp add: visit_dir_skip)
next
  case True
  note D = expand_invD [OF inv]
  from ok have fin: "finite S" "S \<noteq> {}" by (simp_all add: stations_ok_def)
  let ?n = "(y + dy, x + dx)"
  let ?vis = "vis(?n := True)"
  let ?dm = "dm(?n := k + 1)"
  let ?q = "q @ [(y + dy, x + dx, k + 1)]"
  from dir have ab: "\<bar>dy\<bar> \<le> 1" "\<bar>dx\<bar> \<le> 1" by (simp_all add: directions_iff)
  have "nearest_dist S ?n \<le> nearest_dist S (y, x) + 1"
    using fin ab by (rule nearest_dist_step)
  moreover have "\<not> nearest_dist S ?n \<le> k" using True D(13) [of ?n] by blast
  ultimately have nn: "nearest_dist S ?n = k + 1" using D(6) by simp
  have h1: "in_bounds rows cols c" if "?vis c" for c using that True D(1) [of c] by (cases "c = ?n") auto
  have h2: "?dm c = nearest_dist S c" if "?vis c" for c
    using that nn D(2) [of c] by (cases "c = ?n") auto
  have h3: "?vis (item_cell e)" if "e \<in> set ?q" for e using that D(3) [of e] by auto
  have h4: "item_dist e = nearest_dist S (item_cell e)" if "e \<in> set ?q" for e
    using that nn D(4) [of e] by auto
  have h5: "?vis (y, x)" using D(5) by simp
  have h7: "sorted (map item_dist ?q)" using D(7) D(9) by (auto simp: sorted_append)
  have h8: "k \<le> item_dist e" if "e \<in> set ?q" for e using that D(8) [of e] by auto
  have h9: "item_dist e \<le> k + 1" if "e \<in> set ?q" for e using that D(9) [of e] by auto
  have h10: "?vis (cy + dy', cx + dx')"
    if "?vis (cy, cx)" "(cy, cx) \<notin> item_cell ` set ?q" "(cy, cx) \<noteq> (y, x)"
      "(dy', dx') \<in> set directions" "in_bounds rows cols (cy + dy', cx + dx')" for cy cx dy' dx'
  proof -
    from that(2) have ne: "(cy, cx) \<noteq> ?n" and nq: "(cy, cx) \<notin> item_cell ` set q" by auto
    from that(1) ne have "vis (cy, cx)" by (simp split: if_splits)
    then have "vis (cy + dy', cx + dx')" using nq that(3,4,5) by (rule D(10))
    then show ?thesis by simp
  qed
  have h11: "?vis (y + dy', x + dx')"
    if "(dy', dx') \<in> insert (dy, dx) done" "in_bounds rows cols (y + dy', x + dx')" for dy' dx'
  proof (cases "(dy', dx') = (dy, dx)")
    case True
    then show ?thesis by simp
  next
    case False
    with that(1) have "(dy', dx') \<in> done" by blast
    then have "vis (y + dy', x + dx')" using that(2) by (rule D(11))
    then show ?thesis by simp
  qed
  have h12: "?vis s" if "s \<in> S" for s using that D(12) [of s] by simp
  have h13: "?vis c" if "in_bounds rows cols c" "nearest_dist S c \<le> k" for c
    using that D(13) [of c] by simp
  have "expand_inv rows cols S y x k (insert (dy, dx) done) (?dm, ?vis, ?q)"
    by (rule expand_invI)
      (use h1 h2 h3 h4 h5 D(6) h7 h8 h9 h10 h11 h12 h13 in \<open>blast+\<close>)
  then show ?thesis using True by (simp add: visit_dir_take)
qed

lemma expand_inv_fold:
  assumes ok: "stations_ok rows cols S"
  shows "expand_inv rows cols S y x k done st \<Longrightarrow> set ds \<subseteq> set directions \<Longrightarrow>
         expand_inv rows cols S y x k (done \<union> set ds) (fold (visit_dir rows cols y x k) ds st)"
proof (induction ds arbitrary: "done" st)
  case Nil
  then show ?case by simp
next
  case (Cons d ds)
  obtain dy dx where d: "d = (dy, dx)" by (cases d)
  obtain dm vis q where st: "st = (dm, vis, q)" by (cases st)
  from Cons.prems(2) have dir: "(dy, dx) \<in> set directions" and rest: "set ds \<subseteq> set directions"
    by (simp_all add: d)
  have "expand_inv rows cols S y x k (insert (dy, dx) done)
          (visit_dir rows cols y x k (dy, dx) (dm, vis, q))"
    using ok Cons.prems(1) [unfolded st] dir by (rule expand_inv_visit)
  then have "expand_inv rows cols S y x k (insert (dy, dx) done \<union> set ds)
          (fold (visit_dir rows cols y x k) ds (visit_dir rows cols y x k (dy, dx) (dm, vis, q)))"
    using rest by (rule Cons.IH)
  then show ?case by (simp add: d st)
qed

lemma expand_inv_finish:
  assumes inv: "expand_inv rows cols S y x k (set directions) (dm, vis, q)"
  shows "bfs_inv rows cols S (dm, vis, q)"
proof -
  note D = expand_invD [OF inv]
  have h6: "item_dist e' \<le> item_dist e + 1" if "e \<in> set q" "e' \<in> set q" for e e'
    using D(8) [OF that(1)] D(9) [OF that(2)] by simp
  have h7: "vis (cy + dy, cx + dx)"
    if "vis (cy, cx)" "(cy, cx) \<notin> item_cell ` set q"
      "(dy, dx) \<in> set directions" "in_bounds rows cols (cy + dy, cx + dx)" for cy cx dy dx
  proof (cases "(cy, cx) = (y, x)")
    case True
    then show ?thesis using that(3,4) D(11) [of dy dx] by simp
  next
    case False
    with that show ?thesis using D(10) [of cy cx dy dx] by simp
  qed
  show ?thesis
    by (rule bfs_invI) (use D(1) D(2) D(3) D(4) D(7) h6 h7 D(12) in \<open>blast+\<close>)
qed

lemma bfs_inv_expand:
  assumes ok: "stations_ok rows cols S" and inv: "bfs_inv rows cols S (dm, vis, item # q)"
  shows "bfs_inv rows cols S (expand rows cols item (dm, vis, q))"
proof -
  obtain y x k where item: "item = (y, x, k)" by (cases item)
  have "expand_inv rows cols S y x k {} (dm, vis, q)"
    using ok inv [unfolded item] by (rule expand_inv_start)
  then have "expand_inv rows cols S y x k ({} \<union> set directions)
               (fold (visit_dir rows cols y x k) directions (dm, vis, q))"
    using expand_inv_fold [OF ok] by blast
  then have e: "expand_inv rows cols S y x k (set directions) (expand rows cols item (dm, vis, q))"
    by (simp add: expand_def item)
  obtain dm' vis' q' where st: "expand rows cols item (dm, vis, q) = (dm', vis', q')"
    by (cases "expand rows cols item (dm, vis, q)")
  show ?thesis using e unfolding st by (rule expand_inv_finish)
qed

lemma bfs_inv_loop:
  "stations_ok rows cols S \<Longrightarrow> bfs_inv rows cols S st \<Longrightarrow>
   bfs_inv rows cols S (bfs_loop rows cols st)"
proof (induction rows cols st rule: bfs_loop.induct)
  case (1 rows cols distance_map visited)
  then show ?case by simp
next
  case (2 rows cols distance_map visited item queue)
  have "bfs_inv rows cols S (expand rows cols item (distance_map, visited, queue))"
    using "2.prems" by (rule bfs_inv_expand)
  with "2.prems"(1) have "bfs_inv rows cols S
      (bfs_loop rows cols (expand rows cols item (distance_map, visited, queue)))"
    by (rule "2.IH")
  then show ?case by simp
qed

lemma bfs_loop_queue_empty: "snd (snd (bfs_loop rows cols st)) = []"
  by (induction rows cols st rule: bfs_loop.induct) simp_all

section \<open>The seeded state and the computed field\<close>

lemma fold_seed_in_bounds:
  "\<forall>s \<in> set ps. in_bounds rows cols s \<Longrightarrow>
   fold (seed_station rows cols) ps (dm, vis, q)
   = ((\<lambda>c. if c \<in> set ps then 0 else dm c), (\<lambda>c. c \<in> set ps \<or> vis c),
      q @ map (\<lambda>(py, px). (py, px, 0)) ps)"
proof (induction ps arbitrary: dm vis q)
  case Nil
  then show ?case by simp
next
  case (Cons s ps)
  obtain py px where s: "s = (py, px)" by (cases s)
  from Cons.prems have inb: "0 \<le> py \<and> py < rows \<and> 0 \<le> px \<and> px < cols"
    and rest: "\<forall>s \<in> set ps. in_bounds rows cols s"
    by (simp_all add: s in_bounds_def)
  have step: "seed_station rows cols s (dm, vis, q)
              = (dm((py, px) := 0), vis((py, px) := True), q @ [(py, px, 0)])"
    using inb by (simp add: seed_station_def s)
  have f1: "(\<lambda>c. if c \<in> set ps then 0 else (dm((py, px) := 0)) c)
            = (\<lambda>c. if c \<in> set (s # ps) then 0 else dm c)"
    by (auto simp: s fun_eq_iff)
  have f2: "(\<lambda>c. c \<in> set ps \<or> (vis((py, px) := True)) c) = (\<lambda>c. c \<in> set (s # ps) \<or> vis c)"
    by (auto simp: s fun_eq_iff)
  have "fold (seed_station rows cols) (s # ps) (dm, vis, q)
        = fold (seed_station rows cols) ps (dm((py, px) := 0), vis((py, px) := True), q @ [(py, px, 0)])"
    by (simp add: step)
  also have "\<dots> = ((\<lambda>c. if c \<in> set ps then 0 else (dm((py, px) := 0)) c),
                    (\<lambda>c. c \<in> set ps \<or> (vis((py, px) := True)) c),
                    (q @ [(py, px, 0)]) @ map (\<lambda>(py, px). (py, px, 0)) ps)"
    using rest by (rule Cons.IH)
  also have "\<dots> = ((\<lambda>c. if c \<in> set (s # ps) then 0 else dm c), (\<lambda>c. c \<in> set (s # ps) \<or> vis c),
                    q @ map (\<lambda>(py, px). (py, px, 0)) (s # ps))"
    unfolding f1 f2 by (simp add: s)
  finally show ?case .
qed

text \<open>The seeded state in closed form: the stations inside the grid, in list order.\<close>

lemma seed_closed_form:
  "seed rows cols ps
   = ((\<lambda>c. 0), (\<lambda>c. c \<in> set (filter (in_bounds rows cols) ps)),
      map (\<lambda>(py, px). (py, px, 0)) (filter (in_bounds rows cols) ps))"
proof -
  let ?ps = "filter (in_bounds rows cols) ps"
  have "seed rows cols ps = fold (seed_station rows cols) ?ps ((\<lambda>c. 0), (\<lambda>c. False), [])"
    using seed_filter [of rows cols ps] by (simp add: seed_def bfs_init_def)
  also have "\<dots> = ((\<lambda>c. if c \<in> set ?ps then 0 else 0), (\<lambda>c. c \<in> set ?ps \<or> False),
                    [] @ map (\<lambda>(py, px). (py, px, 0)) ?ps)"
    by (rule fold_seed_in_bounds) simp
  finally show ?thesis by simp
qed

lemma sorted_const: "\<forall>x \<in> set xs. x = (c::int) \<Longrightarrow> sorted xs"
  by (induction xs) auto

lemma bfs_inv_seed:
  assumes ne: "set (filter (in_bounds rows cols) ps) \<noteq> {}"
  shows "bfs_inv rows cols (set (filter (in_bounds rows cols) ps)) (seed rows cols ps)"
proof -
  let ?ps = "filter (in_bounds rows cols) ps"
  let ?S = "set ?ps"
  let ?q = "map (\<lambda>(py, px). (py, px, 0::int)) ?ps"
  have fin: "finite ?S" by simp
  have cell: "item_cell e \<in> ?S" and dist: "item_dist e = 0" if "e \<in> set ?q" for e
    using that by auto
  have cells: "item_cell ` set ?q = ?S" by (auto simp: image_iff)
  have h1: "in_bounds rows cols c" if "c \<in> ?S" for c using that by simp
  have h2: "(0::int) = nearest_dist ?S c" if "c \<in> ?S" for c
    using nearest_dist_station [OF fin that] by simp
  have h4: "item_dist e = nearest_dist ?S (item_cell e)" if "e \<in> set ?q" for e
    using dist [OF that] h2 [OF cell [OF that]] by simp
  have h5: "sorted (map item_dist ?q)"
    by (rule sorted_const [where c = 0]) (use dist in auto)
  have h6: "item_dist e' \<le> item_dist e + 1" if "e \<in> set ?q" "e' \<in> set ?q" for e e'
    using dist [OF that(1)] dist [OF that(2)] by simp
  have h7: "(cy + dy, cx + dx) \<in> ?S"
    if "(cy, cx) \<in> ?S" "(cy, cx) \<notin> item_cell ` set ?q" for cy cx dy dx :: int
    using that cells by simp
  have "bfs_inv rows cols ?S ((\<lambda>c. 0), (\<lambda>c. c \<in> ?S), ?q)"
    by (rule bfs_invI) (use h1 h2 cell h4 h5 h6 h7 in \<open>blast+\<close>)
  then show ?thesis by (simp add: seed_closed_form)
qed

text \<open>
  With at least one station inside the grid the loop ends with every grid cell marked and
  holding its distance to the nearest station inside the grid; nothing outside is marked.
\<close>

lemma bfs_run_field:
  assumes ne: "set (filter (in_bounds rows cols) ps) \<noteq> {}"
  shows "in_bounds rows cols c \<Longrightarrow>
           fst (bfs_run rows cols ps) c = nearest_dist (set (filter (in_bounds rows cols) ps)) c"
    and "fst (snd (bfs_run rows cols ps)) c \<longleftrightarrow> in_bounds rows cols c"
proof -
  let ?S = "set (filter (in_bounds rows cols) ps)"
  have ok: "stations_ok rows cols ?S" using ne by (simp add: stations_ok_def)
  obtain dm vis q where run: "bfs_run rows cols ps = (dm, vis, q)" by (cases "bfs_run rows cols ps")
  have "q = []" using bfs_loop_queue_empty [of rows cols "seed rows cols ps"]
    by (simp add: bfs_run_def [symmetric] run)
  have "bfs_inv rows cols ?S (bfs_loop rows cols (seed rows cols ps))"
    using ok bfs_inv_seed [OF ne] by (rule bfs_inv_loop)
  then have inv: "bfs_inv rows cols ?S (dm, vis, [])"
    using run \<open>q = []\<close> by (simp add: bfs_run_def)
  have all: "vis c" if "in_bounds rows cols c" for c
    using ok inv that by (rule visited_below) simp
  show "fst (bfs_run rows cols ps) c = nearest_dist ?S c" if "in_bounds rows cols c"
    using bfs_invD(2) [OF inv all [OF that]] by (simp add: run)
  show "fst (snd (bfs_run rows cols ps)) c \<longleftrightarrow> in_bounds rows cols c"
    using all [of c] bfs_invD(1) [OF inv, of c] by (auto simp: run)
qed

section \<open>Agreement of the three strategies\<close>

text \<open>
  Claim C1, as stated: for every grid and every non-empty station list the three strategies
  return the same distance at every cell. On a 1 by 3 grid with stations \<open>(0, 0)\<close> and
  \<open>(0, 3)\<close>, the second one outside the grid, the brute-force scan gives the cell \<open>(0, 2)\<close> the
  distance 1 and the flood fill gives it 2.
\<close>

theorem strategies_disagree_out_of_bounds:
  "get_nearest_distance_to_police_stations_brutal_force 0 2 [(0, 0), (0, 3)] = Fin 1
   \<and> get_nearest_distance_to_police_stations_bfs 1 3 [(0, 0), (0, 3)]
       = Inr (fst (bfs_run 1 3 [(0, 0), (0, 3)]))
   \<and> fst (bfs_run 1 3 [(0, 0), (0, 3)]) (0, 2) = 2"
proof (intro conjI)
  show "get_nearest_distance_to_police_stations_brutal_force 0 2 [(0, 0), (0, 3)] = Fin 1"
    by code_simp
  show "get_nearest_distance_to_police_stations_bfs 1 3 [(0, 0), (0, 3)]
        = Inr (fst (bfs_run 1 3 [(0, 0), (0, 3)]))"
    by (simp add: get_nearest_distance_to_police_stations_bfs_def)
  show "fst (bfs_run 1 3 [(0, 0), (0, 3)]) (0, 2) = 2"
    by code_simp
qed

text \<open>
  Claim C1, amended: for every grid and every non-empty station list whose stations all
  lie inside the grid, the flood fill returns a field, and at every cell \<open>(i, j)\<close> with
  \<open>0 <= i < rows\<close> and \<open>0 <= j < cols\<close> the brute-force scan and the spatial-index query
  return the value of that field; the solver's loop gives the same radius over all three.
\<close>

theorem strategies_agree_in_bounds:
  assumes "police_stations \<noteq> []" "\<forall>s \<in> set police_stations. in_bounds rows cols s"
  shows "\<exists>field. get_nearest_distance_to_police_stations_bfs rows cols police_stations = Inr field
          \<and> (\<forall>i j. 0 \<le> i \<and> i < rows \<and> 0 \<le> j \<and> j < cols \<longrightarrow>
                get_nearest_distance_to_police_stations_brutal_force i j police_stations
                  = Fin (field (i, j))
              \<and> get_nearest_distance_to_police_stations_kd_tree i j police_stations
                  = Inr (Fin (field (i, j))))
          \<and> radius_bfs rows cols police_stations = radius_brutal_force rows cols police_stations
          \<and> get_largest_nearest_distance_to_police_stations rows cols police_stations
              = radius_brutal_force rows cols police_stations"
proof -
  let ?ps = police_stations
  let ?field = "fst (bfs_run rows cols ?ps)"
  let ?g = "\<lambda>i j. Min (chebyshev i j ` set ?ps)"
  from assms(2) have filt: "filter (in_bounds rows cols) ?ps = ?ps" by simp
  from assms(1) have ne: "set (filter (in_bounds rows cols) ?ps) \<noteq> {}" by (simp add: filt)
  from assms obtain s where "s \<in> set ?ps" "in_bounds rows cols s" by (cases ?ps) auto
  then have pos: "0 < rows" "0 < cols" by (cases s; auto simp: in_bounds_def)+
  have bfs: "get_nearest_distance_to_police_stations_bfs rows cols ?ps = Inr ?field"
    using pos by (simp add: get_nearest_distance_to_police_stations_bfs_def)
  have cell: "?field (i, j) = ?g i j" if "0 \<le> i \<and> i < rows \<and> 0 \<le> j \<and> j < cols" for i j
  proof -
    from that have "in_bounds rows cols (i, j)" by (simp add: in_bounds_def)
    then show ?thesis using bfs_run_field(1) [OF ne] by (simp add: filt nearest_dist_def)
  qed
  have cells: "\<forall>i j. 0 \<le> i \<and> i < rows \<and> 0 \<le> j \<and> j < cols \<longrightarrow>
                get_nearest_distance_to_police_stations_brutal_force i j ?ps = Fin (?field (i, j))
              \<and> get_nearest_distance_to_police_stations_kd_tree i j ?ps = Inr (Fin (?field (i, j)))"
    using cell by (simp add: brutal_force_Min [OF assms(1)] kd_tree_Min [OF assms(1)])
  have "radius_bfs rows cols ?ps = Inr (Fin (grid_max (\<lambda>i j. ?field (i, j)) rows cols))"
    unfolding radius_bfs_def bfs by (simp add: largest_nearest_distance_fin)
  also have "grid_max (\<lambda>i j. ?field (i, j)) rows cols = grid_max ?g rows cols"
    by (rule grid_max_cong) (use cell in blast)
  finally have r1: "radius_bfs rows cols ?ps = radius_brutal_force rows cols ?ps"
    by (simp add: radius_brutal_force_closed_form [OF assms(1)])
  have r2: "get_largest_nearest_distance_to_police_stations rows cols ?ps
            = radius_brutal_force rows cols ?ps"
    by (simp add: radius_brutal_force_closed_form [OF assms(1)] solver_closed_form [OF assms(1)])
  show ?thesis by (rule exI [of _ ?field]) (intro conjI bfs cells r1 r2)
qed

theorem strategies_agree_in_bounds_witness:
  "\<exists>field. get_nearest_distance_to_police_stations_bfs 4 4 [(0, 0), (3, 3)] = Inr field
          \<and> (\<forall>i j. 0 \<le> i \<and> i < 4 \<and> 0 \<le> j \<and> j < 4 \<longrightarrow>
                get_nearest_distance_to_police_stations_brutal_force i j [(0, 0), (3, 3)]
                  = Fin (field (i, j))
              \<and> get_nearest_distance_to_police_stations_kd_tree i j [(0, 0), (3, 3)]
                  = Inr (Fin (field (i, j))))
          \<and> radius_bfs 4 4 [(0, 0), (3, 3)] = radius_brutal_force 4 4 [(0, 0), (3, 3)]
          \<and> get_largest_nearest_distance_to_police_stations 4 4 [(0, 0), (3, 3)]
              = radius_brutal_force 4 4 [(0, 0), (3, 3)]"
  by (rule strategies_agree_in_bounds) (simp_all add: in_bounds_def)

section \<open>What one iteration and the whole loop enqueue\<close>

text \<open>
  The loop over the directions appends items for cells that were not marked, each once,
  and marks exactly those cells.
\<close>

lemma fold_visit_dir_char:
  "\<exists>dm' new. fold (visit_dir rows cols y x k) ds (dm, vis, q)
                 = (dm', (\<lambda>c. vis c \<or> c \<in> item_cell ` set new), q @ new)
             \<and> distinct (map item_cell new)
             \<and> (\<forall>c \<in> item_cell ` set new. \<not> vis c \<and> in_bounds rows cols c)"
proof (induction ds arbitrary: dm vis q)
  case Nil
  show ?case by (rule exI [of _ dm], rule exI [of _ "[]"]) simp
next
  case (Cons d ds)
  obtain dy dx where d: "d = (dy, dx)" by (cases d)
  let ?n = "(y + dy, x + dx)"
  show ?case
  proof (cases "in_bounds rows cols ?n \<and> \<not> vis ?n")
    case False
    then have "fold (visit_dir rows cols y x k) (d # ds) (dm, vis, q)
               = fold (visit_dir rows cols y x k) ds (dm, vis, q)"
      by (simp add: d visit_dir_skip)
    then show ?thesis using Cons.IH [of dm vis q] by simp
  next
    case True
    let ?e = "(y + dy, x + dx, k + 1)"
    let ?vis = "vis(?n := True)"
    from Cons.IH [of "dm(?n := k + 1)" ?vis "q @ [?e]"]
    obtain dm' new where
      f: "fold (visit_dir rows cols y x k) ds (dm(?n := k + 1), ?vis, q @ [?e])
          = (dm', (\<lambda>c. ?vis c \<or> c \<in> item_cell ` set new), (q @ [?e]) @ new)"
      and dn: "distinct (map item_cell new)"
      and un: "\<forall>c \<in> item_cell ` set new. \<not> ?vis c \<and> in_bounds rows cols c"
      by blast
    have v: "(\<lambda>c. ?vis c \<or> c \<in> item_cell ` set new)
             = (\<lambda>c. vis c \<or> c \<in> item_cell ` set (?e # new))"
      by (auto simp: fun_eq_iff)
    have "?n \<notin> item_cell ` set new" using un by auto
    then have d2: "distinct (map item_cell (?e # new))" using dn by simp
    have u2: "\<forall>c \<in> item_cell ` set (?e # new). \<not> vis c \<and> in_bounds rows cols c"
    proof
      fix c assume "c \<in> item_cell ` set (?e # new)"
      then consider "c = ?n" | "c \<in> item_cell ` set new" by auto
      then show "\<not> vis c \<and> in_bounds rows cols c"
      proof cases
        case 1
        then show ?thesis using True by simp
      next
        case 2
        with un have "\<not> ?vis c" "in_bounds rows cols c" by blast+
        then show ?thesis by (simp split: if_splits)
      qed
    qed
    have "visit_dir rows cols y x k (dy, dx) (dm, vis, q) = (dm(?n := k + 1), ?vis, q @ [?e])"
      using True by (simp add: visit_dir_take)
    then have "fold (visit_dir rows cols y x k) (d # ds) (dm, vis, q)
          = fold (visit_dir rows cols y x k) ds (dm(?n := k + 1), ?vis, q @ [?e])"
      by (simp add: d)
    also have "\<dots> = (dm', (\<lambda>c. ?vis c \<or> c \<in> item_cell ` set new), (q @ [?e]) @ new)"
      by (rule f)
    also have "\<dots> = (dm', (\<lambda>c. vis c \<or> c \<in> item_cell ` set (?e # new)), q @ (?e # new))"
      unfolding v by simp
    finally show ?thesis using d2 u2 by blast
  qed
qed

lemma expand_char:
  "\<exists>dm' new. expand rows cols item (dm, vis, q)
                 = (dm', (\<lambda>c. vis c \<or> c \<in> item_cell ` set new), q @ new)
             \<and> distinct (map item_cell new)
             \<and> (\<forall>c \<in> item_cell ` set new. \<not> vis c \<and> in_bounds rows cols c)"
proof -
  obtain y x k where item: "item = (y, x, k)" by (cases item)
  show ?thesis unfolding expand_def item prod.case by (rule fold_visit_dir_char)
qed

text \<open>
  The whole loop pops the items of its start queue and then the items it enqueued itself:
  those are for cells that were not marked at the start, each enqueued once, and they are
  exactly the cells the loop marks. Only a queue that holds a cell twice at the start
  makes the loop pop a cell twice.
\<close>

lemma bfs_pops_char:
  "\<forall>e \<in> set (snd (snd st)). fst (snd st) (item_cell e) \<Longrightarrow>
   \<exists>new. bfs_pops rows cols st = snd (snd st) @ new
        \<and> distinct (map item_cell new)
        \<and> (\<forall>c \<in> item_cell ` set new. \<not> fst (snd st) c \<and> in_bounds rows cols c)
        \<and> fst (snd (bfs_loop rows cols st)) = (\<lambda>c. fst (snd st) c \<or> c \<in> item_cell ` set new)"
proof (induction rows cols st rule: bfs_pops.induct)
  case (1 rows cols distance_map visited)
  show ?case by (rule exI [of _ "[]"]) simp
next
  case (2 rows cols distance_map visited item queue)
  from expand_char [of rows cols item distance_map visited queue]
  obtain dm' new1 where
    ex: "expand rows cols item (distance_map, visited, queue)
         = (dm', (\<lambda>c. visited c \<or> c \<in> item_cell ` set new1), queue @ new1)"
    and d1: "distinct (map item_cell new1)"
    and u1: "\<forall>c \<in> item_cell ` set new1. \<not> visited c \<and> in_bounds rows cols c"
    by blast
  let ?vis' = "\<lambda>c. visited c \<or> c \<in> item_cell ` set new1"
  have pre: "\<forall>e \<in> set (snd (snd (expand rows cols item (distance_map, visited, queue)))).
               fst (snd (expand rows cols item (distance_map, visited, queue))) (item_cell e)"
    using "2.prems" by (auto simp: ex)
  from "2.IH" [OF pre]
  obtain new2 where
    p2: "bfs_pops rows cols (dm', ?vis', queue @ new1) = (queue @ new1) @ new2"
    and d2: "distinct (map item_cell new2)"
    and u2: "\<forall>c \<in> item_cell ` set new2. \<not> ?vis' c \<and> in_bounds rows cols c"
    and v2: "fst (snd (bfs_loop rows cols (dm', ?vis', queue @ new1)))
             = (\<lambda>c. ?vis' c \<or> c \<in> item_cell ` set new2)"
    unfolding ex by auto
  have pops: "bfs_pops rows cols (distance_map, visited, item # queue)
              = (item # queue) @ (new1 @ new2)"
    by (simp add: ex p2)
  have "item_cell ` set new1 \<inter> item_cell ` set new2 = {}" using u2 by blast
  then have dist: "distinct (map item_cell (new1 @ new2))" using d1 d2 by simp
  have unv: "\<forall>c \<in> item_cell ` set (new1 @ new2). \<not> visited c \<and> in_bounds rows cols c"
    using u1 u2 by auto
  have fin: "fst (snd (bfs_loop rows cols (distance_map, visited, item # queue)))
             = (\<lambda>c. visited c \<or> c \<in> item_cell ` set (new1 @ new2))"
    by (simp add: ex v2) (auto simp: fun_eq_iff)
  show ?case
    by (rule exI [of _ "new1 @ new2"]) (use pops dist unv fin in simp)
qed

lemma item_cell_seeded: "map item_cell (map (\<lambda>(py, px). (py, px, 0)) ps) = ps"
  by (induction ps) auto

lemma seed_pops_char:
  "\<exists>new. bfs_pops rows cols (seed rows cols ps)
            = map (\<lambda>(py, px). (py, px, 0)) (filter (in_bounds rows cols) ps) @ new
        \<and> distinct (map item_cell new)
        \<and> (\<forall>c \<in> item_cell ` set new. c \<notin> set ps \<and> in_bounds rows cols c)
        \<and> fst (snd (bfs_run rows cols ps))
            = (\<lambda>c. c \<in> set (filter (in_bounds rows cols) ps) \<or> c \<in> item_cell ` set new)"
proof -
  let ?ps = "filter (in_bounds rows cols) ps"
  let ?q = "map (\<lambda>(py, px). (py, px, 0::int)) ?ps"
  let ?st = "((\<lambda>c. 0::int), (\<lambda>c. c \<in> set ?ps), ?q)"
  have cells: "item_cell ` set ?q = set ?ps"
    using item_cell_seeded [of ?ps] by (metis set_map)
  then have "\<forall>e \<in> set (snd (snd ?st)). fst (snd ?st) (item_cell e)" by auto
  from bfs_pops_char [OF this, of rows cols]
  obtain new where p: "bfs_pops rows cols ?st = ?q @ new"
    and d: "distinct (map item_cell new)"
    and u: "\<forall>c \<in> item_cell ` set new. c \<notin> set ?ps \<and> in_bounds rows cols c"
    and v: "fst (snd (bfs_loop rows cols ?st)) = (\<lambda>c. c \<in> set ?ps \<or> c \<in> item_cell ` set new)"
    by auto
  from u have u': "\<forall>c \<in> item_cell ` set new. c \<notin> set ps \<and> in_bounds rows cols c" by auto
  show ?thesis
    by (rule exI [of _ new]) (use p d u' v in \<open>simp add: seed_closed_form bfs_run_def\<close>)
qed

lemma item_cell_seeded_set: "item_cell ` set (map (\<lambda>(py, px). (py, px, 0)) ps) = set ps"
  using item_cell_seeded [of ps] by (metis set_map)

section \<open>Stations outside the grid\<close>

text \<open>
  Claim C5. The flood fill ignores stations outside the grid: its result on a station list
  is its result on the sublist of the stations inside the grid, and a coordinate outside
  \<open>[0, rows) \<times> [0, cols)\<close> is never the cell of an item that passes through the queue and is
  never marked visited.
\<close>

theorem bfs_ignores_out_of_bounds:
  "get_nearest_distance_to_police_stations_bfs rows cols police_stations
     = get_nearest_distance_to_police_stations_bfs rows cols
         (filter (in_bounds rows cols) police_stations)
   \<and> (\<forall>s. \<not> in_bounds rows cols s \<longrightarrow>
         s \<notin> item_cell ` set (bfs_pops rows cols (seed rows cols police_stations))
         \<and> \<not> fst (snd (bfs_run rows cols police_stations)) s)"
proof -
  let ?ps = "filter (in_bounds rows cols) police_stations"
  have "seed rows cols ?ps = seed rows cols police_stations"
    by (simp add: seed_closed_form)
  then have eq: "get_nearest_distance_to_police_stations_bfs rows cols police_stations
     = get_nearest_distance_to_police_stations_bfs rows cols ?ps"
    by (simp add: get_nearest_distance_to_police_stations_bfs_def bfs_run_def)
  from seed_pops_char [of rows cols police_stations]
  obtain new where p: "bfs_pops rows cols (seed rows cols police_stations)
            = map (\<lambda>(py, px). (py, px, 0)) ?ps @ new"
    and u: "\<forall>c \<in> item_cell ` set new. c \<notin> set police_stations \<and> in_bounds rows cols c"
    and v: "fst (snd (bfs_run rows cols police_stations))
            = (\<lambda>c. c \<in> set ?ps \<or> c \<in> item_cell ` set new)"
    by blast
  have cells: "item_cell ` set (bfs_pops rows cols (seed rows cols police_stations))
               = set ?ps \<union> item_cell ` set new"
    unfolding p set_append image_Un item_cell_seeded_set ..
  have out: "s \<notin> item_cell ` set (bfs_pops rows cols (seed rows cols police_stations))
             \<and> \<not> fst (snd (bfs_run rows cols police_stations)) s"
    if "\<not> in_bounds rows cols s" for s
  proof -
    have "s \<notin> set ?ps" using that by simp
    moreover have "s \<notin> item_cell ` set new" using that u by blast
    ultimately show ?thesis unfolding cells v by blast
  qed
  show ?thesis
  proof (intro conjI allI impI)
    show "get_nearest_distance_to_police_stations_bfs rows cols police_stations
          = get_nearest_distance_to_police_stations_bfs rows cols ?ps" by (rule eq)
  next
    fix s assume "\<not> in_bounds rows cols s"
    then show "s \<notin> item_cell ` set (bfs_pops rows cols (seed rows cols police_stations))"
      using out by blast
  next
    fix s assume "\<not> in_bounds rows cols s"
    then show "\<not> fst (snd (bfs_run rows cols police_stations)) s"
      using out by blast
  qed
qed

theorem bfs_ignores_out_of_bounds_witness:
  "get_nearest_distance_to_police_stations_bfs 2 2 [(0, 0), (5, 5)]
     = get_nearest_distance_to_police_stations_bfs 2 2 (filter (in_bounds 2 2) [(0, 0), (5, 5)])
   \<and> \<not> in_bounds 2 2 (5, 5)
   \<and> (5, 5) \<notin> item_cell ` set (bfs_pops 2 2 (seed 2 2 [(0, 0), (5, 5)]))
   \<and> \<not> fst (snd (bfs_run 2 2 [(0, 0), (5, 5)])) (5, 5)"
proof -
  have out: "\<not> in_bounds 2 2 (5, 5)" by (simp add: in_bounds_def)
  have "get_nearest_distance_to_police_stations_bfs 2 2 [(0, 0), (5, 5)]
          = get_nearest_distance_to_police_stations_bfs 2 2 (filter (in_bounds 2 2) [(0, 0), (5, 5)])"
    and "\<forall>s. \<not> in_bounds 2 2 s \<longrightarrow>
          s \<notin> item_cell ` set (bfs_pops 2 2 (seed 2 2 [(0, 0), (5, 5)]))
          \<and> \<not> fst (snd (bfs_run 2 2 [(0, 0), (5, 5)])) s"
    using bfs_ignores_out_of_bounds [of 2 2 "[(0, 0), (5, 5)]"] by (rule conjunct1, rule conjunct2)
  then show ?thesis using out by blast
qed

section \<open>How often a cell is visited\<close>

lemma bfs_pops_dist:
  "stations_ok rows cols S \<Longrightarrow> bfs_inv rows cols S st \<Longrightarrow>
   \<forall>e \<in> set (bfs_pops rows cols st). item_dist e = nearest_dist S (item_cell e)"
proof (induction rows cols st rule: bfs_pops.induct)
  case (1 rows cols distance_map visited)
  then show ?case by simp
next
  case (2 rows cols distance_map visited item queue)
  have "bfs_inv rows cols S (expand rows cols item (distance_map, visited, queue))"
    using "2.prems" by (rule bfs_inv_expand)
  with "2.prems"(1) have rest: "\<forall>e \<in> set (bfs_pops rows cols
      (expand rows cols item (distance_map, visited, queue))).
      item_dist e = nearest_dist S (item_cell e)"
    by (rule "2.IH")
  have "item_dist item = nearest_dist S (item_cell item)"
    using bfs_invD(4) [OF "2.prems"(2), of item] by simp
  with rest show ?case by simp
qed

text \<open>
  Claim C8, at a station list that names a grid cell twice: on the 1 by 1 grid with the
  station \<open>(0, 0)\<close> listed twice, the seeding loop, which does not look at the visited
  array, enqueues the cell twice, and the while loop pops and expands it twice.
\<close>

theorem bfs_duplicate_station_popped_twice:
  "bfs_pops 1 1 (seed 1 1 [(0, 0), (0, 0)]) = [(0, 0, 0), (0, 0, 0)]"
  by code_simp

text \<open>
  What holds of the visits for every station list with a station inside the grid: the
  loop pops the seeded stations in list order and then one item for each other grid cell,
  each of those cells once; every popped item carries the distance its cell holds in the
  returned field, which is the distance to the nearest station inside the grid; exactly
  the grid cells end up marked; and no cell is popped twice when the stations inside the
  grid are pairwise distinct.
\<close>

theorem bfs_visits_characterised:
  assumes "\<exists>s \<in> set ps. in_bounds rows cols s"
  shows "\<exists>new. bfs_pops rows cols (seed rows cols ps)
                 = map (\<lambda>(py, px). (py, px, 0)) (filter (in_bounds rows cols) ps) @ new
          \<and> distinct (map item_cell new)
          \<and> item_cell ` set new = {c. in_bounds rows cols c \<and> c \<notin> set ps}
          \<and> (\<forall>e \<in> set (bfs_pops rows cols (seed rows cols ps)).
                fst (bfs_run rows cols ps) (item_cell e) = item_dist e
                \<and> item_dist e = nearest_dist (set (filter (in_bounds rows cols) ps)) (item_cell e))
          \<and> (\<forall>c. fst (snd (bfs_run rows cols ps)) c \<longleftrightarrow> in_bounds rows cols c)
          \<and> (\<forall>c. in_bounds rows cols c \<longrightarrow>
                fst (bfs_run rows cols ps) c
                  = nearest_dist (set (filter (in_bounds rows cols) ps)) c)
          \<and> (distinct (filter (in_bounds rows cols) ps) \<longrightarrow>
                distinct (map item_cell (bfs_pops rows cols (seed rows cols ps))))"
proof -
  let ?ps = "filter (in_bounds rows cols) ps"
  let ?S = "set ?ps"
  let ?pops = "bfs_pops rows cols (seed rows cols ps)"
  from assms have ne: "?S \<noteq> {}" by (auto simp: filter_empty_conv)
  then have ok: "stations_ok rows cols ?S" by (simp add: stations_ok_def)
  note field = bfs_run_field [OF ne]
  from seed_pops_char [of rows cols ps]
  obtain new where p: "?pops = map (\<lambda>(py, px). (py, px, 0)) ?ps @ new"
    and d: "distinct (map item_cell new)"
    and u: "\<forall>c \<in> item_cell ` set new. c \<notin> set ps \<and> in_bounds rows cols c"
    and v: "fst (snd (bfs_run rows cols ps)) = (\<lambda>c. c \<in> ?S \<or> c \<in> item_cell ` set new)"
    by blast
  have marked: "\<forall>c. fst (snd (bfs_run rows cols ps)) c \<longleftrightarrow> in_bounds rows cols c"
    using field(2) by blast
  have new_cells: "item_cell ` set new = {c. in_bounds rows cols c \<and> c \<notin> set ps}"
  proof (intro set_eqI iffI)
    fix c assume "c \<in> item_cell ` set new"
    then show "c \<in> {c. in_bounds rows cols c \<and> c \<notin> set ps}" using u by blast
  next
    fix c assume "c \<in> {c. in_bounds rows cols c \<and> c \<notin> set ps}"
    then have "in_bounds rows cols c" "c \<notin> ?S" by simp_all
    moreover from this(1) have "fst (snd (bfs_run rows cols ps)) c" using marked by blast
    ultimately show "c \<in> item_cell ` set new" unfolding v by blast
  qed
  have cells: "item_cell ` set ?pops = ?S \<union> item_cell ` set new"
    unfolding p set_append image_Un item_cell_seeded_set ..
  have inb: "in_bounds rows cols (item_cell e)" if "e \<in> set ?pops" for e
  proof -
    from that have "item_cell e \<in> ?S \<union> item_cell ` set new" unfolding cells [symmetric] by simp
    then show ?thesis using u by auto
  qed
  have "\<forall>e \<in> set ?pops. item_dist e = nearest_dist ?S (item_cell e)"
    using ok bfs_inv_seed [OF ne] by (rule bfs_pops_dist)
  then have dist: "\<forall>e \<in> set ?pops. fst (bfs_run rows cols ps) (item_cell e) = item_dist e
                \<and> item_dist e = nearest_dist ?S (item_cell e)"
    using field(1) inb by simp
  have full: "\<forall>c. in_bounds rows cols c \<longrightarrow> fst (bfs_run rows cols ps) c = nearest_dist ?S c"
    using field(1) by blast
  have once: "distinct (map item_cell ?pops)" if "distinct ?ps"
  proof -
    have disj: "set ?ps \<inter> set (map item_cell new) = {}" using u by auto
    have "map item_cell ?pops = ?ps @ map item_cell new"
      unfolding p map_append item_cell_seeded ..
    then show ?thesis using that d disj by (simp only: distinct_append)
  qed
  have once': "distinct ?ps \<longrightarrow> distinct (map item_cell ?pops)" using once by blast
  show ?thesis
    by (rule exI [of _ new]) (intro conjI p d new_cells dist marked full once')
qed

end
